theory Spec2Isabelle
  imports Complex_Main "HOL-Library.Product_Lexorder"
begin

section \<open>Python strings\<close>

text \<open>
  A Python \<open>str\<close> is modelled as a \<^typ>\<open>string\<close>: a list of characters with code points
  below 256.  Of the line boundaries of \<open>str.splitlines\<close>, the eight below lie in that
  range (U+2028 and U+2029 are outside the alphabet of the model).
\<close>

definition LF :: char where
  "LF = CHR 0x0A"

definition CR :: char where
  "CR = CHR 0x0D"

definition is_linebreak :: "char \<Rightarrow> bool" where
  "is_linebreak c \<longleftrightarrow>
     c \<in> set [CHR 0x0A, CHR 0x0B, CHR 0x0C, CHR 0x0D, CHR 0x1C, CHR 0x1D, CHR 0x1E, CHR 0x85]"

text \<open>
  \<open>str.splitlines()\<close>: the string is cut at every line boundary, \<open>\r\n\<close> counting as
  one boundary; the boundaries are dropped, and no empty last line is produced when the
  string ends with a boundary.  \<open>cur\<close> is the line read so far, reversed.
\<close>

fun splitlines_from :: "string \<Rightarrow> string \<Rightarrow> string list" where
  "splitlines_from cur [] = (if cur = [] then [] else [rev cur])"
| "splitlines_from cur (c # cs) =
     (if c = CR then
        (case cs of
           [] \<Rightarrow> [rev cur]
         | d # ds \<Rightarrow>
             if d = LF then rev cur # splitlines_from [] ds
             else rev cur # splitlines_from [] (d # ds))
      else if is_linebreak c then rev cur # splitlines_from [] cs
      else splitlines_from (c # cur) cs)"

definition splitlines :: "string \<Rightarrow> string list" where
  "splitlines s = splitlines_from [] s"

text \<open>\<open>'\n'.join(pages)\<close>\<close>

fun join_lf :: "string list \<Rightarrow> string" where
  "join_lf [] = []"
| "join_lf [p] = p"
| "join_lf (p # q # ps) = p @ LF # join_lf (q # ps)"

text \<open>\<open>s.startswith(p)\<close>\<close>

definition startswith :: "string \<Rightarrow> string \<Rightarrow> bool" where
  "startswith s p \<longleftrightarrow> take (length p) s = p"

text \<open>
  A Python slice \<open>xs[lo:hi]\<close> with integer bounds: a negative bound counts from the
  end, and both bounds are clamped to the list.
\<close>

definition slice_bound :: "nat \<Rightarrow> int \<Rightarrow> nat" where
  "slice_bound n i = (if i < 0 then nat (max 0 (int n + i)) else min n (nat i))"

definition py_slice :: "'a list \<Rightarrow> int \<Rightarrow> int \<Rightarrow> 'a list" where
  "py_slice xs lo hi =
     (let l = slice_bound (length xs) lo; h = slice_bound (length xs) hi
      in take (h - l) (drop l xs))"


section \<open>Page and line resolution\<close>

text \<open>
  \<open>PDFComparer._find_page_for_line(line_num, pages)\<close>.  The loop over
  \<open>enumerate(pages)\<close> carries the page index and \<open>current_line\<close>; it returns from inside
  the loop at the first page with \<open>current_line + len(page_lines) >= line_num\<close>, and the
  statement after the loop returns \<open>(len(pages), 0)\<close>.
\<close>

fun find_page_loop :: "int \<Rightarrow> string list \<Rightarrow> nat \<Rightarrow> int \<Rightarrow> (nat \<times> int) option" where
  "find_page_loop line_num [] page_idx current_line = None"
| "find_page_loop line_num (page_text # rest) page_idx current_line =
     (let page_lines = splitlines page_text in
      if current_line + int (length page_lines) \<ge> line_num
      then Some (page_idx + 1, line_num - current_line)
      else find_page_loop line_num rest (page_idx + 1) (current_line + int (length page_lines)))"

definition find_page_for_line :: "int \<Rightarrow> string list \<Rightarrow> nat \<times> int" where
  "find_page_for_line line_num pages =
     (case find_page_loop line_num pages 0 0 of
        Some r \<Rightarrow> r
      | None \<Rightarrow> (length pages, 0))"

text \<open>
  The page-span table of a document: the number of lines of each page, and the
  cumulative span of the first \<open>k\<close> pages.
\<close>

definition page_spans :: "string list \<Rightarrow> int list" where
  "page_spans pages = map (\<lambda>p. int (length (splitlines p))) pages"

definition cumulative_span :: "string list \<Rightarrow> nat \<Rightarrow> int" where
  "cumulative_span pages k = sum_list (take k (page_spans pages))"


section \<open>The sequence matcher\<close>

text \<open>
  \<open>difflib.SequenceMatcher(None, a, b)\<close> of the standard library, as \<open>compare_text\<close> uses it:
  no junk predicate, and \<open>autojunk\<close> left at its default \<open>True\<close>.  A match is a triple
  \<open>(i, j, k)\<close> standing for \<open>a[i:i+k] == b[j:j+k]\<close>.
\<close>

type_synonym match = "nat \<times> nat \<times> nat"

text \<open>
  \<open>__chain_b\<close>: the index \<open>b2j\<close> maps an element to the increasing list of its positions
  in \<open>b\<close>.  When \<open>b\<close> has at least 200 elements, an element with more than
  \<open>n // 100 + 1\<close> positions is popular and is deleted from the index.
  \<open>find_longest_match\<close> reads the index with \<open>b2j.get(a[i], nothing)\<close>, so a deleted or
  absent element has the empty list of positions.
\<close>

definition indices_of :: "'a list \<Rightarrow> 'a \<Rightarrow> nat list" where
  "indices_of b elt = filter (\<lambda>j. b ! j = elt) [0..<length b]"

definition chain_b :: "'a list \<Rightarrow> 'a \<Rightarrow> nat list" where
  "chain_b b elt =
     (let n = length b; idxs = indices_of b elt; ntest = n div 100 + 1
      in if n \<ge> 200 \<and> length idxs > ntest then [] else idxs)"

text \<open>
  \<open>j2len.get(j - 1, 0)\<close>; the key \<open>-1\<close> is never in the dict.
\<close>

definition j2len_get :: "(nat \<rightharpoonup> nat) \<Rightarrow> nat \<Rightarrow> nat" where
  "j2len_get j2len j =
     (if j = 0 then 0 else case j2len (j - 1) of None \<Rightarrow> 0 | Some v \<Rightarrow> v)"

text \<open>
  The inner loop of \<open>find_longest_match\<close>, over the positions \<open>j\<close> of \<open>a[i]\<close> in \<open>b\<close>:
  \<open>continue\<close> below \<open>blo\<close>, \<open>break\<close> from \<open>bhi\<close> on, and otherwise
  \<open>k = newj2len[j] = j2len.get(j - 1, 0) + 1\<close> and the best match is replaced when
  \<open>k > bestsize\<close>.
\<close>

fun flm_inner ::
  "nat \<Rightarrow> nat \<Rightarrow> nat \<Rightarrow> (nat \<rightharpoonup> nat) \<Rightarrow> nat list \<Rightarrow> (nat \<rightharpoonup> nat) \<Rightarrow> match
     \<Rightarrow> (nat \<rightharpoonup> nat) \<times> match" where
  "flm_inner i blo bhi j2len [] newj2len best = (newj2len, best)"
| "flm_inner i blo bhi j2len (j # js) newj2len (besti, bestj, bestsize) =
     (if j < blo then flm_inner i blo bhi j2len js newj2len (besti, bestj, bestsize)
      else if j \<ge> bhi then (newj2len, (besti, bestj, bestsize))
      else
        let k = j2len_get j2len j + 1 in
        if k > bestsize
        then flm_inner i blo bhi j2len js (newj2len(j \<mapsto> k)) (i + 1 - k, j + 1 - k, k)
        else flm_inner i blo bhi j2len js (newj2len(j \<mapsto> k)) (besti, bestj, bestsize))"

text \<open>
  The outer loop, over \<open>i\<close> in \<open>range(alo, ahi)\<close>; each row starts with an empty
  \<open>newj2len\<close>, which becomes \<open>j2len\<close> for the next row.
\<close>

fun flm_rows ::
  "'a list \<Rightarrow> ('a \<Rightarrow> nat list) \<Rightarrow> nat \<Rightarrow> nat \<Rightarrow> nat list \<Rightarrow> (nat \<rightharpoonup> nat) \<Rightarrow> match
     \<Rightarrow> match" where
  "flm_rows a b2j blo bhi [] j2len best = best"
| "flm_rows a b2j blo bhi (i # is) j2len best =
     (case flm_inner i blo bhi j2len (b2j (a ! i)) Map.empty best of
        (newj2len, best') \<Rightarrow> flm_rows a b2j blo bhi is newj2len best')"

text \<open>
  The two loops that extend the best match by equal elements, first to the left and then
  to the right.  Without a junk predicate \<open>isbjunk\<close> is false for every element, so
  these loops run on the equality test alone and the two later loops over junk elements
  never run.
\<close>

function extend_left :: "'a list \<Rightarrow> 'a list \<Rightarrow> nat \<Rightarrow> nat \<Rightarrow> match \<Rightarrow> match" where
  "extend_left a b alo blo (besti, bestj, bestsize) =
     (if besti > alo \<and> bestj > blo \<and> a ! (besti - 1) = b ! (bestj - 1)
      then extend_left a b alo blo (besti - 1, bestj - 1, bestsize + 1)
      else (besti, bestj, bestsize))"
  by pat_completeness auto
termination
  by (relation "measure (\<lambda>(a, b, alo, blo, besti, bestj, bestsize). besti)") auto

function extend_right :: "'a list \<Rightarrow> 'a list \<Rightarrow> nat \<Rightarrow> nat \<Rightarrow> match \<Rightarrow> match" where
  "extend_right a b ahi bhi (besti, bestj, bestsize) =
     (if besti + bestsize < ahi \<and> bestj + bestsize < bhi
         \<and> a ! (besti + bestsize) = b ! (bestj + bestsize)
      then extend_right a b ahi bhi (besti, bestj, bestsize + 1)
      else (besti, bestj, bestsize))"
  by pat_completeness auto
termination
  by (relation "measure (\<lambda>(a, b, ahi, bhi, besti, bestj, bestsize). ahi - (besti + bestsize))") auto

text \<open>
  \<open>find_longest_match(alo, ahi, blo, bhi)\<close>: the best match starts as \<open>(alo, blo, 0)\<close>.
\<close>

definition find_longest_match ::
  "'a list \<Rightarrow> 'a list \<Rightarrow> ('a \<Rightarrow> nat list) \<Rightarrow> nat \<Rightarrow> nat \<Rightarrow> nat \<Rightarrow> nat \<Rightarrow> match" where
  "find_longest_match a b b2j alo ahi blo bhi =
     extend_right a b ahi bhi
       (extend_left a b alo blo
          (flm_rows a b2j blo bhi [alo..<ahi] Map.empty (alo, blo, 0)))"


text \<open>
  Bounds that the loops of \<open>find_longest_match\<close> maintain; they give the termination of
  the loop of \<open>get_matching_blocks\<close> below.
\<close>

definition row_ok :: "nat \<Rightarrow> nat \<Rightarrow> (nat \<rightharpoonup> nat) \<Rightarrow> bool" where
  "row_ok alo i j2len \<longleftrightarrow> (\<forall>j v. j2len j = Some v \<longrightarrow> v + alo \<le> i)"

definition best_ok :: "nat \<Rightarrow> nat \<Rightarrow> match \<Rightarrow> bool" where
  "best_ok alo i best \<longleftrightarrow> (case best of (besti, bestj, bestsize) \<Rightarrow> alo \<le> besti \<and> besti + bestsize \<le> i)"

lemma j2len_get_le: "row_ok alo i j2len \<Longrightarrow> alo \<le> i \<Longrightarrow> j2len_get j2len j + alo \<le> i"
  by (auto simp: row_ok_def j2len_get_def split: option.splits)

lemma flm_inner_bounds:
  "row_ok alo i j2len \<Longrightarrow> alo \<le> i \<Longrightarrow> row_ok alo (Suc i) newj2len \<Longrightarrow> best_ok alo (Suc i) best
   \<Longrightarrow> flm_inner i blo bhi j2len js newj2len best = (nj, best')
   \<Longrightarrow> row_ok alo (Suc i) nj \<and> best_ok alo (Suc i) best'"
proof (induction i blo bhi j2len js newj2len best rule: flm_inner.induct)
  case (1 i blo bhi j2len newj2len best)
  then show ?case by simp
next
  case (2 i blo bhi j2len j js newj2len besti bestj bestsize)
  let ?k = "j2len_get j2len j + 1"
  have k: "?k + alo \<le> Suc i"
    using j2len_get_le [OF "2.prems"(1,2), of j] by simp
  have row': "row_ok alo (Suc i) (newj2len(j \<mapsto> ?k))"
    using "2.prems"(3) k by (auto simp: row_ok_def)
  have best': "best_ok alo (Suc i) (i + 1 - ?k, j + 1 - ?k, ?k)"
    using k by (auto simp: best_ok_def)
  show ?case
  proof (cases "j < blo")
    case True
    then show ?thesis using 2 by simp
  next
    case nlo: False
    show ?thesis
    proof (cases "j \<ge> bhi")
      case True
      then show ?thesis using nlo "2.prems" by simp
    next
      case nhi: False
      show ?thesis
      proof (cases "?k > bestsize")
        case True
        have "flm_inner i blo bhi j2len (j # js) newj2len (besti, bestj, bestsize)
              = flm_inner i blo bhi j2len js (newj2len(j \<mapsto> ?k)) (i + 1 - ?k, j + 1 - ?k, ?k)"
          using nlo nhi True by (simp add: Let_def del: fun_upd_apply)
        then have "flm_inner i blo bhi j2len js (newj2len(j \<mapsto> ?k)) (i + 1 - ?k, j + 1 - ?k, ?k)
              = (nj, best')"
          using "2.prems"(5) by simp
        then show ?thesis
          by (rule "2.IH"(2) [OF nlo nhi refl True "2.prems"(1,2) row' best'])
      next
        case False
        have "flm_inner i blo bhi j2len (j # js) newj2len (besti, bestj, bestsize)
              = flm_inner i blo bhi j2len js (newj2len(j \<mapsto> ?k)) (besti, bestj, bestsize)"
          using nlo nhi False by (simp add: Let_def del: fun_upd_apply)
        then have "flm_inner i blo bhi j2len js (newj2len(j \<mapsto> ?k)) (besti, bestj, bestsize)
              = (nj, best')"
          using "2.prems"(5) by simp
        then show ?thesis
          by (rule "2.IH"(3) [OF nlo nhi refl False "2.prems"(1,2) row' "2.prems"(4)])
      qed
    qed
  qed
qed

lemma flm_rows_bounds:
  "row_ok alo i j2len \<Longrightarrow> alo \<le> i \<Longrightarrow> i \<le> ahi \<Longrightarrow> best_ok alo i best
   \<Longrightarrow> best_ok alo ahi (flm_rows a b2j blo bhi [i..<ahi] j2len best)"
proof (induction "ahi - i" arbitrary: i j2len best)
  case 0
  then show ?case by simp
next
  case (Suc d)
  then have lt: "i < ahi" by simp
  obtain nj best' where inner:
    "flm_inner i blo bhi j2len (b2j (a ! i)) Map.empty best = (nj, best')"
    by (cases "flm_inner i blo bhi j2len (b2j (a ! i)) Map.empty best") auto
  have b1: "best_ok alo (Suc i) best"
    using Suc.prems(4) by (auto simp: best_ok_def)
  have r0: "row_ok alo (Suc i) Map.empty"
    by (simp add: row_ok_def)
  have step: "row_ok alo (Suc i) nj \<and> best_ok alo (Suc i) best'"
    by (rule flm_inner_bounds [OF Suc.prems(1,2) r0 b1 inner])
  have "best_ok alo ahi (flm_rows a b2j blo bhi [Suc i..<ahi] nj best')"
    by (rule Suc.hyps(1)) (use Suc.hyps(2) Suc.prems lt step in auto)
  then show ?case
    using lt inner by (simp add: upt_conv_Cons)
qed

lemma extend_left_bounds:
  "extend_left a b alo blo m = (i, j, k) \<Longrightarrow> best_ok alo hi m \<Longrightarrow> best_ok alo hi (i, j, k)"
proof (induction a b alo blo m rule: extend_left.induct)
  case (1 a b alo blo besti bestj bestsize)
  show ?case
  proof (cases "besti > alo \<and> bestj > blo \<and> a ! (besti - 1) = b ! (bestj - 1)")
    case True
    have "best_ok alo hi (besti - 1, bestj - 1, bestsize + 1)"
      using True "1.prems"(2) by (auto simp: best_ok_def)
    then show ?thesis
      using "1.IH" [OF True] "1.prems"(1) True by simp
  next
    case False
    then show ?thesis using "1.prems" by auto
  qed
qed

lemma extend_left_size0:
  "extend_left a b alo blo (alo, bj, 0) = (alo, bj, 0)"
  by simp

lemma extend_right_bounds:
  "extend_right a b ahi bhi m = (i, j, k) \<Longrightarrow> best_ok alo ahi m \<Longrightarrow> best_ok alo ahi (i, j, k)"
proof (induction a b ahi bhi m rule: extend_right.induct)
  case (1 a b ahi bhi besti bestj bestsize)
  show ?case
  proof (cases "besti + bestsize < ahi \<and> bestj + bestsize < bhi
         \<and> a ! (besti + bestsize) = b ! (bestj + bestsize)")
    case True
    have "best_ok alo ahi (besti, bestj, bestsize + 1)"
      using True "1.prems"(2) by (auto simp: best_ok_def)
    then show ?thesis
      using "1.IH" [OF True] "1.prems"(1) True by simp
  next
    case False
    then show ?thesis using "1.prems" by auto
  qed
qed

lemma find_longest_match_bounds:
  assumes "find_longest_match a b b2j alo ahi blo bhi = (i, j, k)" and "k \<noteq> 0"
  shows "alo \<le> i \<and> i + k \<le> ahi"
proof (cases "alo \<le> ahi")
  case True
  have "best_ok alo ahi (flm_rows a b2j blo bhi [alo..<ahi] Map.empty (alo, blo, 0))"
    by (rule flm_rows_bounds) (use True in \<open>auto simp: row_ok_def best_ok_def\<close>)
  then have "best_ok alo ahi
      (extend_left a b alo blo (flm_rows a b2j blo bhi [alo..<ahi] Map.empty (alo, blo, 0)))"
    by (metis extend_left_bounds prod_cases3)
  then have "best_ok alo ahi (i, j, k)"
    using assms(1) unfolding find_longest_match_def by (metis extend_right_bounds)
  then show ?thesis by (simp add: best_ok_def)
next
  case False
  then have "find_longest_match a b b2j alo ahi blo bhi = (alo, blo, 0)"
    by (simp add: find_longest_match_def)
  then show ?thesis using assms by simp
qed

text \<open>
  The loop \<open>while queue\<close> of \<open>get_matching_blocks\<close>.  \<open>queue.pop()\<close> takes the item
  appended last; the model keeps that item at the head of the list.  A window with an empty
  longest match is dropped; otherwise the match is recorded and the windows to its left and
  to its right are queued when they are not empty on both sides.
\<close>

function mb_loop ::
  "'a list \<Rightarrow> 'a list \<Rightarrow> ('a \<Rightarrow> nat list) \<Rightarrow> (nat \<times> nat \<times> nat \<times> nat) list \<Rightarrow> match list
     \<Rightarrow> match list" where
  "mb_loop a b b2j [] matching_blocks = matching_blocks"
| "mb_loop a b b2j ((alo, ahi, blo, bhi) # queue) matching_blocks =
     (case find_longest_match a b b2j alo ahi blo bhi of
        (i, j, k) \<Rightarrow>
          if k \<noteq> 0 then
            mb_loop a b b2j
              ((if i + k < ahi \<and> j + k < bhi then [(i + k, ahi, j + k, bhi)] else [])
                 @ (if alo < i \<and> blo < j then [(alo, i, blo, j)] else [])
                 @ queue)
              (matching_blocks @ [(i, j, k)])
          else mb_loop a b b2j queue matching_blocks)"
  by pat_completeness auto
termination
  apply (relation "measure (\<lambda>(a, b, b2j, queue, blocks).
          sum_list (map (\<lambda>(alo, ahi, blo, bhi). 2 * (ahi - alo) + 1) queue))")
    apply simp
   apply (auto dest!: find_longest_match_bounds [OF sym])
  done

text \<open>
  The loop over the sorted blocks that merges adjacent ones; the second argument is the
  running block \<open>(i1, j1, k1)\<close>.
\<close>

fun collapse_loop :: "match list \<Rightarrow> match \<Rightarrow> match list \<Rightarrow> match \<times> match list" where
  "collapse_loop [] cur non_adjacent = (cur, non_adjacent)"
| "collapse_loop ((i2, j2, k2) # rest) (i1, j1, k1) non_adjacent =
     (if i1 + k1 = i2 \<and> j1 + k1 = j2
      then collapse_loop rest (i1, j1, k1 + k2) non_adjacent
      else collapse_loop rest (i2, j2, k2)
             (if k1 \<noteq> 0 then non_adjacent @ [(i1, j1, k1)] else non_adjacent))"

text \<open>
  \<open>get_matching_blocks()\<close>: \<open>matching_blocks.sort()\<close> orders the triples
  lexicographically, and the result ends with the sentinel \<open>(la, lb, 0)\<close>.
\<close>

definition get_matching_blocks :: "'a list \<Rightarrow> 'a list \<Rightarrow> match list" where
  "get_matching_blocks a b =
     (let la = length a; lb = length b;
          matching_blocks = sort (mb_loop a b (chain_b b) [(0, la, 0, lb)] [])
      in case collapse_loop matching_blocks (0, 0, 0) [] of
           ((i1, j1, k1), non_adjacent) \<Rightarrow>
             (if k1 \<noteq> 0 then non_adjacent @ [(i1, j1, k1)] else non_adjacent) @ [(la, lb, 0)])"

text \<open>
  \<open>ratio()\<close>: \<open>2.0 * matches / length\<close>, and \<open>1.0\<close> when both sequences are empty.
  The float is modelled by the exact rational.
\<close>

definition ratio :: "'a list \<Rightarrow> 'a list \<Rightarrow> rat" where
  "ratio a b =
     (let matches = sum_list (map (\<lambda>(i, j, k). k) (get_matching_blocks a b));
          len = length a + length b
      in if len \<noteq> 0 then 2 * of_nat matches / of_nat len else 1)"

text \<open>
  \<open>get_opcodes()\<close>: the loop over the matching blocks with the cursors \<open>i\<close>, \<open>j\<close>.
\<close>

datatype tag = Replace | Delete | Insert | Equal

type_synonym opcode = "tag \<times> nat \<times> nat \<times> nat \<times> nat"

fun opcodes_loop :: "match list \<Rightarrow> nat \<Rightarrow> nat \<Rightarrow> opcode list \<Rightarrow> opcode list" where
  "opcodes_loop [] i j answer = answer"
| "opcodes_loop ((ai, bj, sz) # blocks) i j answer =
     (let answer1 =
            (if i < ai \<and> j < bj then answer @ [(Replace, i, ai, j, bj)]
             else if i < ai then answer @ [(Delete, i, ai, j, bj)]
             else if j < bj then answer @ [(Insert, i, ai, j, bj)]
             else answer);
          i' = ai + sz;
          j' = bj + sz;
          answer2 = (if sz \<noteq> 0 then answer1 @ [(Equal, ai, i', bj, j')] else answer1)
      in opcodes_loop blocks i' j' answer2)"

definition get_opcodes :: "'a list \<Rightarrow> 'a list \<Rightarrow> opcode list" where
  "get_opcodes a b = opcodes_loop (get_matching_blocks a b) 0 0 []"

text \<open>
  \<open>get_grouped_opcodes(n)\<close>.  A leading and a trailing \<open>equal\<close> opcode are cut to \<open>n\<close>
  lines of context; the loop then cuts the opcodes into groups at every \<open>equal\<close> opcode
  longer than \<open>2 * n\<close>.  The list of the groups that the generator yields is returned.
  Subtraction on naturals stops at 0, which agrees with \<open>max(i1, i2 - n)\<close> on the
  integers.
\<close>

definition fix_first :: "nat \<Rightarrow> opcode list \<Rightarrow> opcode list" where
  "fix_first n codes =
     (case codes of
        (Equal, i1, i2, j1, j2) # rest \<Rightarrow> (Equal, max i1 (i2 - n), i2, max j1 (j2 - n), j2) # rest
      | _ \<Rightarrow> codes)"

definition fix_last :: "nat \<Rightarrow> opcode list \<Rightarrow> opcode list" where
  "fix_last n codes =
     (case rev codes of
        (Equal, i1, i2, j1, j2) # rest \<Rightarrow>
          rev ((Equal, i1, min i2 (i1 + n), j1, min j2 (j1 + n)) # rest)
      | _ \<Rightarrow> codes)"

fun group_loop :: "nat \<Rightarrow> opcode list \<Rightarrow> opcode list \<Rightarrow> opcode list list \<Rightarrow> opcode list list" where
  "group_loop n [] grp groups =
     (if grp \<noteq> [] \<and> \<not> (length grp = 1 \<and> fst (hd grp) = Equal)
      then groups @ [grp] else groups)"
| "group_loop n ((tag, i1, i2, j1, j2) # codes) grp groups =
     (if tag = Equal \<and> i2 - i1 > n + n
      then group_loop n codes
             [(tag, max i1 (i2 - n), i2, max j1 (j2 - n), j2)]
             (groups @ [grp @ [(tag, i1, min i2 (i1 + n), j1, min j2 (j1 + n))]])
      else group_loop n codes (grp @ [(tag, i1, i2, j1, j2)]) groups)"

definition get_grouped_opcodes :: "'a list \<Rightarrow> 'a list \<Rightarrow> nat \<Rightarrow> opcode list list" where
  "get_grouped_opcodes a b n =
     (let codes0 = get_opcodes a b;
          codes = (if codes0 = [] then [(Equal, 0, 1, 0, 1)] else codes0)
      in group_loop n (fix_last n (fix_first n codes)) [] [])"

text \<open>
  \<open>'{}'.format(n)\<close> for a natural number.
\<close>

fun show_nat :: "nat \<Rightarrow> string" where
  "show_nat n =
     (if n < 10 then [''0123456789'' ! n]
      else show_nat (n div 10) @ [''0123456789'' ! (n mod 10)])"

text \<open>
  \<open>_format_range_unified(start, stop)\<close>.
\<close>

definition format_range_unified :: "nat \<Rightarrow> nat \<Rightarrow> string" where
  "format_range_unified start stop =
     (let beginning = start + 1; len = stop - start
      in if len = 1 then show_nat beginning
         else show_nat (if len = 0 then beginning - 1 else beginning) @ '','' @ show_nat len)"

text \<open>
  \<open>xs[lo:hi]\<close> for natural bounds.
\<close>

definition slice :: "'a list \<Rightarrow> nat \<Rightarrow> nat \<Rightarrow> 'a list" where
  "slice xs lo hi = take (hi - lo) (drop lo xs)"

text \<open>
  The lines of one group: context lines with a blank in front, lines of \<open>a\<close> under
  \<open>replace\<close> and \<open>delete\<close> with \<open>-\<close>, lines of \<open>b\<close> under \<open>replace\<close> and \<open>insert\<close>
  with \<open>+\<close>.
\<close>

fun dump_group :: "string list \<Rightarrow> string list \<Rightarrow> opcode list \<Rightarrow> string list" where
  "dump_group a b [] = []"
| "dump_group a b ((tag, i1, i2, j1, j2) # rest) =
     (if tag = Equal then map ((#) CHR '' '') (slice a i1 i2)
      else (if tag = Replace \<or> tag = Delete then map ((#) CHR ''-'') (slice a i1 i2) else [])
         @ (if tag = Replace \<or> tag = Insert then map ((#) CHR ''+'') (slice b j1 j2) else []))
     @ dump_group a b rest"

text \<open>
  The hunk header of a group, followed by its lines.
\<close>

definition dump_hunk :: "string list \<Rightarrow> string list \<Rightarrow> opcode list \<Rightarrow> string list" where
  "dump_hunk a b grp =
     (case (hd grp, last grp) of
        ((tag_f, i1_f, i2_f, j1_f, j2_f), (tag_l, i1_l, i2_l, j1_l, j2_l)) \<Rightarrow>
          (''@@ -'' @ format_range_unified i1_f i2_l @ '' +'' @ format_range_unified j1_f j2_l
             @ '' @@'')
          # dump_group a b grp)"

text \<open>
  \<open>difflib.unified_diff(a, b, fromfile, tofile, lineterm='')\<close> with no file dates and
  \<open>n = 3\<close>: the two file header lines are produced before the first group only.
\<close>

definition unified_diff :: "string list \<Rightarrow> string list \<Rightarrow> string \<Rightarrow> string \<Rightarrow> string list" where
  "unified_diff a b fromfile tofile =
     (case get_grouped_opcodes a b 3 of
        [] \<Rightarrow> []
      | groups \<Rightarrow>
          (''--- '' @ fromfile) # (''+++ '' @ tofile) # concat (map (dump_hunk a b) groups))"


section \<open>Positions of the differences\<close>

text \<open>
  The hunk header is read back with
  \<open>re.match(r"@@ -(\d+)(?:,(\d+))? \+(\d+)(?:,(\d+))? @@", line)\<close>.  Below 256 the class
  \<open>\d\<close> holds the ten ASCII digits.  \<open>match_hunk\<close> returns groups 1 and 3 as numbers;
  an optional count is skipped when a comma and digits follow, and no other way of
  matching exists, since a number is always followed by a character that is not a digit.
\<close>

definition is_digit :: "char \<Rightarrow> bool" where
  "is_digit c \<longleftrightarrow> c \<in> set ''0123456789''"

definition digit_value :: "char \<Rightarrow> nat" where
  "digit_value c = of_char c - 48"

definition int_of_digits :: "string \<Rightarrow> nat" where
  "int_of_digits ds = foldl (\<lambda>acc c. 10 * acc + digit_value c) 0 ds"

definition strip_prefix :: "string \<Rightarrow> string \<Rightarrow> string option" where
  "strip_prefix p s = (if startswith s p then Some (drop (length p) s) else None)"

definition take_number :: "string \<Rightarrow> (string \<times> string) option" where
  "take_number s =
     (if takeWhile is_digit s = [] then None
      else Some (takeWhile is_digit s, dropWhile is_digit s))"

definition skip_count :: "string \<Rightarrow> string" where
  "skip_count s =
     (case strip_prefix '','' s of
        None \<Rightarrow> s
      | Some r \<Rightarrow> (case take_number r of None \<Rightarrow> s | Some (g, r') \<Rightarrow> r'))"

definition match_hunk :: "string \<Rightarrow> (nat \<times> nat) option" where
  "match_hunk line =
     (case strip_prefix ''@@ -'' line of None \<Rightarrow> None | Some r1 \<Rightarrow>
     (case take_number r1 of None \<Rightarrow> None | Some (g1, r2) \<Rightarrow>
     (case strip_prefix '' +'' (skip_count r2) of None \<Rightarrow> None | Some r3 \<Rightarrow>
     (case take_number r3 of None \<Rightarrow> None | Some (g3, r4) \<Rightarrow>
     (case strip_prefix '' @@'' (skip_count r4) of None \<Rightarrow> None | Some r5 \<Rightarrow>
        Some (int_of_digits g1, int_of_digits g3))))))"


text \<open>
  \<open>_get_context(lines, line_num, context_size=2)\<close>.
\<close>

record line_context =
  before :: "string list"
  after :: "string list"

definition get_context :: "string list \<Rightarrow> int \<Rightarrow> line_context" where
  "get_context lines line_num =
     \<lparr>before = py_slice lines (max 0 (line_num - 2)) line_num,
      after = py_slice lines (line_num + 1) (min (int (length lines)) (line_num + 1 + 2))\<rparr>"

text \<open>
  One entry of \<open>detailed_differences\<close>; the fields are the keys of the dict, with the
  prefix \<open>d_\<close>.
\<close>

record difference =
  d_type :: string
  d_content :: string
  d_page :: nat
  d_line :: int
  d_line_in_page :: int
  d_file :: string
  d_context :: line_context

text \<open>
  \<open>_extract_detailed_positions\<close>.  The loop carries the two cursors \<open>current_line1\<close> and
  \<open>current_line2\<close>, which count from 0, and the list \<open>differences\<close>.  The page of an entry
  is looked up with the cursor itself, while the entry stores the cursor plus one as
  \<open>line\<close>.
\<close>

fun extract_loop ::
  "string list \<Rightarrow> string list \<Rightarrow> string list \<Rightarrow> string list \<Rightarrow> string list
     \<Rightarrow> int \<Rightarrow> int \<Rightarrow> difference list \<Rightarrow> difference list" where
  "extract_loop [] lines1 lines2 pages1 pages2 current_line1 current_line2 differences =
     differences"
| "extract_loop (dline # rest) lines1 lines2 pages1 pages2 current_line1 current_line2 differences =
     (if startswith dline ''@@'' then
        (case match_hunk dline of
           Some (g1, g3) \<Rightarrow>
             extract_loop rest lines1 lines2 pages1 pages2 (int g1 - 1) (int g3 - 1) differences
         | None \<Rightarrow>
             extract_loop rest lines1 lines2 pages1 pages2 current_line1 current_line2 differences)
      else if startswith dline ''---'' \<or> startswith dline ''+++'' then
        extract_loop rest lines1 lines2 pages1 pages2 current_line1 current_line2 differences
      else if startswith dline ''-'' then
        (case find_page_for_line current_line1 pages1 of
           (page_num, line_in_page) \<Rightarrow>
             extract_loop rest lines1 lines2 pages1 pages2 (current_line1 + 1) current_line2
               (differences @
                  [\<lparr>d_type = ''removed'', d_content = drop 1 dline, d_page = page_num,
                    d_line = current_line1 + 1, d_line_in_page = line_in_page,
                    d_file = ''pdf1'', d_context = get_context lines1 current_line1\<rparr>]))
      else if startswith dline ''+'' then
        (case find_page_for_line current_line2 pages2 of
           (page_num, line_in_page) \<Rightarrow>
             extract_loop rest lines1 lines2 pages1 pages2 current_line1 (current_line2 + 1)
               (differences @
                  [\<lparr>d_type = ''added'', d_content = drop 1 dline, d_page = page_num,
                    d_line = current_line2 + 1, d_line_in_page = line_in_page,
                    d_file = ''pdf2'', d_context = get_context lines2 current_line2\<rparr>]))
      else
        extract_loop rest lines1 lines2 pages1 pages2 (current_line1 + 1) (current_line2 + 1)
          differences)"

definition extract_detailed_positions ::
  "string list \<Rightarrow> string list \<Rightarrow> string list \<Rightarrow> string list \<Rightarrow> string list
     \<Rightarrow> difference list" where
  "extract_detailed_positions diff_lines lines1 lines2 pages1 pages2 =
     extract_loop diff_lines lines1 lines2 pages1 pages2 0 0 []"

text \<open>
  The dict \<open>result['statistics']\<close> of \<open>compare_text\<close>.
\<close>

record statistics =
  lines_added :: nat
  lines_removed :: nat
  total_changes :: nat
  char_count1 :: nat
  char_count2 :: nat
  line_count1 :: nat
  line_count2 :: nat


section \<open>The comparators and the comprehensive comparison\<close>

text \<open>
  Every comparator returns a dict.  It is modelled by the record \<open>method_result\<close>: the
  key \<open>error\<close> is present iff the field \<open>error\<close> is not \<open>None\<close>, the key \<open>identical\<close> is
  present iff the field \<open>identical\<close> is not \<open>None\<close>, and the remaining keys are collected in
  \<open>details\<close>.  An error message is a constructor of \<open>message\<close>; \<open>exn\<close> is the text of a
  caught exception.
\<close>

type_synonym exn = string

datatype message =
    TextUnavailable
  | TextFailed exn
  | VisualUnavailable
  | PageCountDiffer nat nat
  | VisualFailed exn
  | StructureUnavailable
  | StructureFailed exn
  | MetadataUnavailable
  | MetadataFailed exn
  | BasicInfoFailed exn
  | FileNotFound string

record text_details =
  similarity :: rat
  statistics :: statistics
  detailed_differences :: "difference list option"
  diff_preview :: "string list option"

record page_similarity =
  ps_page :: nat
  ps_similarity :: rat
  different_pixels :: nat
  total_pixels :: nat

record 'a compared =
  pdf1 :: 'a
  pdf2 :: 'a
  same :: bool

record table_info =
  ti_page :: nat
  tables_pdf1 :: nat
  tables_pdf2 :: nat
  ti_identical :: bool

datatype details =
    NoDetails
  | TextDetails (the_text: text_details)
  | VisualDetails rat nat "page_similarity list"
  | StructureDetails "nat compared" "table_info list"
  | MetadataDetails "string compared" "(string \<times> string compared) list"
  | BasicDetails "nat compared" "nat compared option"

record method_result =
  error :: "message option"
  method_name :: "string option"
  identical :: "bool option"
  details :: details

definition failed :: "message \<Rightarrow> method_result" where
  "failed m = \<lparr>error = Some m, method_name = None, identical = None, details = NoDetails\<rparr>"

text \<open>
  \<open>self.capabilities\<close>, the dict that \<open>_check_capabilities\<close> builds when the comparer is
  created.
\<close>

record capabilities =
  text_comparison :: bool
  visual_comparison :: bool
  structure_analysis :: bool
  metadata_comparison :: bool

text \<open>
  The libraries and the file system: \<open>fitz.open\<close>, \<open>convert_from_path\<close>,
  \<open>Image.resize\<close>, \<open>pdfplumber.open\<close> with the number of tables of each page,
  \<open>os.path.exists\<close>, \<open>os.path.getsize\<close>, the bytes of a file and \<open>hashlib.md5\<close>.  A call
  that raises returns \<open>Inl\<close> with the text of the exception.  An image is its size and
  the array of its values.
\<close>

record image =
  img_size :: "nat \<times> nat"
  pixels :: "nat list"

record document =
  page_texts :: "string list"
  metadata :: "(string \<times> string) list"

record backend =
  path_exists :: "string \<Rightarrow> bool"
  getsize :: "string \<Rightarrow> exn + nat"
  HAS_PYMUPDF :: bool
  fitz_open :: "string \<Rightarrow> exn + document"
  convert_from_path :: "string \<Rightarrow> nat \<Rightarrow> exn + image list"
  resize :: "image \<Rightarrow> nat \<times> nat \<Rightarrow> image"
  pdfplumber_open :: "string \<Rightarrow> exn + nat list"
  read_bytes :: "string \<Rightarrow> exn + string"
  md5_hexdigest :: "string \<Rightarrow> string"

text \<open>
  \<open>os.path.basename\<close> for POSIX paths.
\<close>

definition basename :: "string \<Rightarrow> string" where
  "basename p = rev (takeWhile (\<lambda>c. c \<noteq> CHR ''/'') (rev p))"

text \<open>
  \<open>_extract_text_by_page\<close>: the text of each page of the document.
\<close>

definition extract_text_by_page :: "backend \<Rightarrow> string \<Rightarrow> exn + string list" where
  "extract_text_by_page be pdf_path =
     (case fitz_open be pdf_path of Inl e \<Rightarrow> Inl e | Inr doc \<Rightarrow> Inr (page_texts doc))"

text \<open>
  The body of the \<open>try\<close> block of \<open>compare_text\<close> once both documents are read.
\<close>

definition text_result :: "string list \<Rightarrow> string list \<Rightarrow> string \<Rightarrow> string \<Rightarrow> bool \<Rightarrow> method_result" where
  "text_result pages1 pages2 fromfile tofile detailed =
     (let text1 = join_lf pages1;
          text2 = join_lf pages2;
          lines1 = splitlines text1;
          lines2 = splitlines text2;
          diff_lines = unified_diff lines1 lines2 fromfile tofile;
          added = length (filter (\<lambda>l. startswith l ''+'' \<and> \<not> startswith l ''+++'') diff_lines);
          removed = length (filter (\<lambda>l. startswith l ''-'' \<and> \<not> startswith l ''---'') diff_lines)
      in \<lparr>error = None,
          method_name = Some ''text_comparison'',
          identical = Some (text1 = text2),
          details = TextDetails
            \<lparr>similarity = ratio text1 text2,
              statistics =
                \<lparr>lines_added = added, lines_removed = removed, total_changes = added + removed,
                  char_count1 = length text1, char_count2 = length text2,
                  line_count1 = length lines1, line_count2 = length lines2\<rparr>,
              detailed_differences =
                (if detailed \<and> diff_lines \<noteq> []
                 then Some (extract_detailed_positions diff_lines lines1 lines2 pages1 pages2)
                 else None),
              diff_preview =
                (if detailed \<and> diff_lines \<noteq> [] then None else Some (take 20 diff_lines))\<rparr>\<rparr>)"

text \<open>
  \<open>compare_text(pdf1_path, pdf2_path, detailed)\<close>: the capability check, then the
  extraction of both documents; an exception gives the dict with the only key \<open>error\<close>.
\<close>

definition compare_text ::
  "capabilities \<Rightarrow> backend \<Rightarrow> string \<Rightarrow> string \<Rightarrow> bool \<Rightarrow> method_result" where
  "compare_text caps be pdf1_path pdf2_path detailed =
     (if \<not> text_comparison caps then failed TextUnavailable
      else
        case extract_text_by_page be pdf1_path of
          Inl e \<Rightarrow> failed (TextFailed e)
        | Inr pages1 \<Rightarrow>
            (case extract_text_by_page be pdf2_path of
               Inl e \<Rightarrow> failed (TextFailed e)
             | Inr pages2 \<Rightarrow>
                 text_result pages1 pages2 (basename pdf1_path) (basename pdf2_path) detailed))"

text \<open>
  The loop of \<open>compare_visual\<close> over the pairs of page images.  \<open>diff_pixels / total_pixels\<close>
  raises for an empty array.
\<close>

fun compare_pages ::
  "backend \<Rightarrow> nat \<Rightarrow> (image \<times> image) list \<Rightarrow> page_similarity list
     \<Rightarrow> exn + page_similarity list" where
  "compare_pages be i [] page_similarities = Inr page_similarities"
| "compare_pages be i ((img1, img2) # rest) page_similarities =
     (let img2' = (if img_size img1 \<noteq> img_size img2 then resize be img2 (img_size img1)
                   else img2);
          arr1 = pixels img1;
          arr2 = pixels img2';
          diff_pixels = length (filter (\<lambda>(x, y). x \<noteq> y) (zip arr1 arr2));
          total = length arr1
      in if total = 0 then Inl ''division by zero''
         else compare_pages be (i + 1) rest
                (page_similarities @
                   [\<lparr>ps_page = i + 1,
                     ps_similarity = 1 - of_nat diff_pixels / of_nat total,
                     different_pixels = diff_pixels,
                     total_pixels = total\<rparr>]))"

text \<open>
  \<open>compare_visual(pdf1_path, pdf2_path, dpi)\<close>.  When the page counts differ the dict has
  both the key \<open>identical\<close> (false) and the key \<open>error\<close>.  With no page at all the
  average divides by zero, which the \<open>except\<close> clause turns into an error.
\<close>

definition compare_visual ::
  "capabilities \<Rightarrow> backend \<Rightarrow> string \<Rightarrow> string \<Rightarrow> nat \<Rightarrow> method_result" where
  "compare_visual caps be pdf1_path pdf2_path dpi =
     (if \<not> visual_comparison caps then failed VisualUnavailable
      else
        case convert_from_path be pdf1_path dpi of
          Inl e \<Rightarrow> failed (VisualFailed e)
        | Inr images1 \<Rightarrow>
            (case convert_from_path be pdf2_path dpi of
               Inl e \<Rightarrow> failed (VisualFailed e)
             | Inr images2 \<Rightarrow>
                 if length images1 \<noteq> length images2 then
                   \<lparr>error = Some (PageCountDiffer (length images1) (length images2)),
                    method_name = Some ''visual_comparison'',
                    identical = Some False,
                    details = NoDetails\<rparr>
                 else
                   (case compare_pages be 0 (zip images1 images2) [] of
                      Inl e \<Rightarrow> failed (VisualFailed e)
                    | Inr page_similarities \<Rightarrow>
                        if page_similarities = [] then failed (VisualFailed ''division by zero'')
                        else
                          let overall_similarity =
                                sum_list (map ps_similarity page_similarities)
                                  / of_nat (length page_similarities)
                          in \<lparr>error = None,
                              method_name = Some ''visual_comparison'',
                              identical = Some (overall_similarity > 999 / 1000),
                              details = VisualDetails overall_similarity (length images1)
                                          page_similarities\<rparr>)))"

text \<open>
  \<open>compare_structure(pdf1_path, pdf2_path)\<close>.
\<close>

definition compare_structure ::
  "capabilities \<Rightarrow> backend \<Rightarrow> string \<Rightarrow> string \<Rightarrow> method_result" where
  "compare_structure caps be pdf1_path pdf2_path =
     (if \<not> structure_analysis caps then failed StructureUnavailable
      else
        case pdfplumber_open be pdf1_path of
          Inl e \<Rightarrow> failed (StructureFailed e)
        | Inr tables1 \<Rightarrow>
            (case pdfplumber_open be pdf2_path of
               Inl e \<Rightarrow> failed (StructureFailed e)
             | Inr tables2 \<Rightarrow>
                 let page_count =
                       \<lparr>pdf1 = length tables1, pdf2 = length tables2,
                         same = (length tables1 = length tables2)\<rparr>;
                     max_pages = min (length tables1) (length tables2);
                     tables_info =
                       map (\<lambda>i. \<lparr>ti_page = i + 1,
                                  tables_pdf1 = tables1 ! i,
                                  tables_pdf2 = tables2 ! i,
                                  ti_identical = (tables1 ! i = tables2 ! i)\<rparr>)
                         [0..<max_pages]
                 in \<lparr>error = None,
                     method_name = Some ''structure_comparison'',
                     identical = Some (same page_count \<and> list_all ti_identical tables_info),
                     details = StructureDetails page_count tables_info\<rparr>))"

text \<open>
  \<open>_calculate_hash(filepath)\<close>.
\<close>

definition calculate_hash :: "backend \<Rightarrow> string \<Rightarrow> exn + string" where
  "calculate_hash be filepath =
     (case read_bytes be filepath of Inl e \<Rightarrow> Inl e | Inr bs \<Rightarrow> Inr (md5_hexdigest be bs))"

text \<open>
  \<open>compare_metadata(pdf1_path, pdf2_path)\<close>.  The metadata of a document is a dict from
  keys to texts, modelled by an association list read with \<open>metadata.get(key, '')\<close>.
\<close>

definition dict_get :: "(string \<times> string) list \<Rightarrow> string \<Rightarrow> string \<Rightarrow> string" where
  "dict_get d key dflt = (case map_of d key of None \<Rightarrow> dflt | Some v \<Rightarrow> v)"

definition compare_metadata ::
  "capabilities \<Rightarrow> backend \<Rightarrow> string \<Rightarrow> string \<Rightarrow> method_result" where
  "compare_metadata caps be pdf1_path pdf2_path =
     (if \<not> metadata_comparison caps then failed MetadataUnavailable
      else
        case fitz_open be pdf1_path of
          Inl e \<Rightarrow> failed (MetadataFailed e)
        | Inr doc1 \<Rightarrow>
       (case fitz_open be pdf2_path of
          Inl e \<Rightarrow> failed (MetadataFailed e)
        | Inr doc2 \<Rightarrow>
       (case calculate_hash be pdf1_path of
          Inl e \<Rightarrow> failed (MetadataFailed e)
        | Inr hash1 \<Rightarrow>
       (case calculate_hash be pdf2_path of
          Inl e \<Rightarrow> failed (MetadataFailed e)
        | Inr hash2 \<Rightarrow>
            let metadata1 = metadata doc1;
                metadata2 = metadata doc2;
                all_keys = remdups (map fst metadata1 @ map fst metadata2);
                metadata_comparison =
                  map (\<lambda>key.
                         let val1 = dict_get metadata1 key '''';
                             val2 = dict_get metadata2 key ''''
                         in (key, \<lparr>pdf1 = val1, pdf2 = val2, same = (val1 = val2)\<rparr>))
                    all_keys
            in \<lparr>error = None,
                method_name = Some ''metadata_comparison'',
                identical = Some (list_all (\<lambda>(key, m). same m) metadata_comparison),
                details = MetadataDetails
                            \<lparr>pdf1 = hash1, pdf2 = hash2, same = (hash1 = hash2)\<rparr>
                            metadata_comparison\<rparr>))))"

text \<open>
  \<open>compare_basic_info(pdf1_path, pdf2_path)\<close>: its dict never has the key \<open>identical\<close> at
  the top level.
\<close>

definition compare_basic_info :: "backend \<Rightarrow> string \<Rightarrow> string \<Rightarrow> method_result" where
  "compare_basic_info be pdf1_path pdf2_path =
     (case getsize be pdf1_path of
        Inl e \<Rightarrow> failed (BasicInfoFailed e)
      | Inr size1 \<Rightarrow>
     (case getsize be pdf2_path of
        Inl e \<Rightarrow> failed (BasicInfoFailed e)
      | Inr size2 \<Rightarrow>
          let file_size = \<lparr>pdf1 = size1, pdf2 = size2, same = (size1 = size2)\<rparr> in
          if HAS_PYMUPDF be then
            (case fitz_open be pdf1_path of
               Inl e \<Rightarrow> failed (BasicInfoFailed e)
             | Inr doc1 \<Rightarrow>
            (case fitz_open be pdf2_path of
               Inl e \<Rightarrow> failed (BasicInfoFailed e)
             | Inr doc2 \<Rightarrow>
                 \<lparr>error = None, method_name = Some ''basic_info'', identical = None,
                  details = BasicDetails file_size
                    (Some \<lparr>pdf1 = length (page_texts doc1), pdf2 = length (page_texts doc2),
                           same = (length (page_texts doc1) = length (page_texts doc2))\<rparr>)\<rparr>))
          else
            \<lparr>error = None, method_name = Some ''basic_info'', identical = None,
             details = BasicDetails file_size None\<rparr>))"

text \<open>
  The dict that \<open>comprehensive_compare\<close> returns, without the time stamp.  \<open>results\<close> is
  kept as the list of the pairs in insertion order.
\<close>

record summary =
  overall_identical :: bool
  checks_passed :: nat
  checks_total :: nat
  has_errors :: bool

record report =
  files :: "string \<times> string"
  methods_used :: "string list"
  results :: "(string \<times> method_result) list"
  summary :: summary

text \<open>
  \<open>[k for k, v in self.capabilities.items() if v]\<close>, used when \<open>methods\<close> is \<open>None\<close>.
\<close>

definition available_methods :: "capabilities \<Rightarrow> string list" where
  "available_methods caps =
     map fst (filter snd
       [(''text_comparison'', text_comparison caps),
        (''visual_comparison'', visual_comparison caps),
        (''structure_analysis'', structure_analysis caps),
        (''metadata_comparison'', metadata_comparison caps)])"

definition methods_to_use :: "capabilities \<Rightarrow> string list option \<Rightarrow> string list" where
  "methods_to_use caps methods_arg =
     (case methods_arg of None \<Rightarrow> available_methods caps | Some ms \<Rightarrow> ms)"

text \<open>
  Basic info always runs; each other comparator runs when its name is in \<open>methods\<close>, with
  its default arguments (\<open>detailed=True\<close>, \<open>dpi=150\<close>).
\<close>

definition run_methods ::
  "capabilities \<Rightarrow> backend \<Rightarrow> string \<Rightarrow> string \<Rightarrow> string list
     \<Rightarrow> (string \<times> method_result) list" where
  "run_methods caps be pdf1_path pdf2_path methods =
     [(''basic_info'', compare_basic_info be pdf1_path pdf2_path)]
     @ (if ''text_comparison'' \<in> set methods
        then [(''text_comparison'', compare_text caps be pdf1_path pdf2_path True)] else [])
     @ (if ''visual_comparison'' \<in> set methods
        then [(''visual_comparison'', compare_visual caps be pdf1_path pdf2_path 150)] else [])
     @ (if ''structure_analysis'' \<in> set methods
        then [(''structure_analysis'', compare_structure caps be pdf1_path pdf2_path)] else [])
     @ (if ''metadata_comparison'' \<in> set methods
        then [(''metadata_comparison'', compare_metadata caps be pdf1_path pdf2_path)] else [])"

text \<open>
  The loop that collects \<open>result['identical']\<close> of every result that has no key \<open>error\<close>
  and has the key \<open>identical\<close>.
\<close>

fun collect_identical :: "method_result list \<Rightarrow> bool list \<Rightarrow> bool list" where
  "collect_identical [] identical_checks = identical_checks"
| "collect_identical (r # rs) identical_checks =
     (if error r = None \<and> identical r \<noteq> None
      then collect_identical rs (identical_checks @ [the (identical r)])
      else collect_identical rs identical_checks)"

text \<open>
  The dict \<open>results['summary']\<close>.
\<close>

definition summarize :: "(string \<times> method_result) list \<Rightarrow> summary" where
  "summarize res =
     (let identical_checks = collect_identical (map snd res) [] in
      \<lparr>overall_identical = (if identical_checks \<noteq> [] then list_all id identical_checks else False),
       checks_passed =
         (if identical_checks \<noteq> []
          then sum_list (map (\<lambda>b. if b then 1 else 0) identical_checks) else 0),
       checks_total = length identical_checks,
       has_errors = list_ex (\<lambda>r. error r \<noteq> None) (map snd res)\<rparr>)"

text \<open>
  \<open>comprehensive_compare(pdf1_path, pdf2_path, methods)\<close>: a missing file gives the dict
  with the only key \<open>error\<close>, modelled by \<open>Inl\<close>.
\<close>

definition comprehensive_compare ::
  "capabilities \<Rightarrow> backend \<Rightarrow> string \<Rightarrow> string \<Rightarrow> string list option \<Rightarrow> message + report" where
  "comprehensive_compare caps be pdf1_path pdf2_path methods_arg =
     (if \<not> path_exists be pdf1_path then Inl (FileNotFound pdf1_path)
      else if \<not> path_exists be pdf2_path then Inl (FileNotFound pdf2_path)
      else
        let methods = methods_to_use caps methods_arg;
            res = run_methods caps be pdf1_path pdf2_path methods
        in Inr \<lparr>files = (pdf1_path, pdf2_path),
                methods_used = methods,
                results = res,
                summary = summarize res\<rparr>)"


section \<open>Notions of the specification and sample inputs\<close>

text \<open>
  The identical-set of a run: the \<open>identical\<close> values of the results that did not fail.
  A result has failed when it carries an error; the selected results are those of the
  comparators other than basic info.
\<close>

definition identical_set :: "(string \<times> method_result) list \<Rightarrow> bool list" where
  "identical_set res =
     concat (map (\<lambda>(name, r).
                    if error r = None then (case identical r of None \<Rightarrow> [] | Some b \<Rightarrow> [b]) else [])
              res)"

definition failed_results :: "(string \<times> method_result) list \<Rightarrow> (string \<times> method_result) list" where
  "failed_results res = filter (\<lambda>(name, r). error r \<noteq> None) res"

definition selected_results :: "(string \<times> method_result) list \<Rightarrow> (string \<times> method_result) list" where
  "selected_results res = filter (\<lambda>(name, r). name \<noteq> ''basic_info'') res"

text \<open>
  A sample environment: every path exists, the document \<open>a.pdf\<close> has the single page
  with the lines A, B, C and one page image, every other document has the lines A, X, C
  and two page images.
\<close>

definition sample_image :: image where
  "sample_image = \<lparr>img_size = (1, 1), pixels = [0, 0, 0]\<rparr>"

definition sample_backend :: backend where
  "sample_backend =
     \<lparr>path_exists = (\<lambda>p. True),
      getsize = (\<lambda>p. Inr 100),
      HAS_PYMUPDF = True,
      fitz_open = (\<lambda>p. Inr \<lparr>page_texts = (if p = ''a.pdf'' then [''A\<newline>B\<newline>C'']
                                              else [''A\<newline>X\<newline>C'']),
                              metadata = []\<rparr>),
      convert_from_path = (\<lambda>p dpi. Inr (if p = ''a.pdf'' then [sample_image]
                                          else [sample_image, sample_image])),
      resize = (\<lambda>img sz. img),
      pdfplumber_open = (\<lambda>p. Inr [0]),
      read_bytes = (\<lambda>p. Inr p),
      md5_hexdigest = (\<lambda>bs. bs)\<rparr>"

definition no_capabilities :: capabilities where
  "no_capabilities =
     \<lparr>text_comparison = False, visual_comparison = False,
      structure_analysis = False, metadata_comparison = False\<rparr>"

definition all_capabilities :: capabilities where
  "all_capabilities =
     \<lparr>text_comparison = True, visual_comparison = True,
      structure_analysis = True, metadata_comparison = True\<rparr>"

text \<open>
  A result is counted when the aggregate loop collects it; \<open>gated_methods\<close> are the
  four with a capability flag.
\<close>

definition counted :: "method_result \<Rightarrow> bool" where
  "counted r \<longleftrightarrow> error r = None \<and> identical r \<noteq> None"

definition gated_methods :: "string list" where
  "gated_methods =
     [''text_comparison'', ''visual_comparison'', ''structure_analysis'', ''metadata_comparison'']"


text \<open>
  The table of the matcher run on a sequence against itself: \<open>cell\<close> holds where row
  \<open>r\<close> meets a position \<open>c\<close> listed by the index, and \<open>match_len\<close> is the length of the
  common run ending there, the value that \<open>find_longest_match\<close> stores in \<open>j2len\<close>.
\<close>

definition cell :: "'a list \<Rightarrow> ('a \<Rightarrow> nat list) \<Rightarrow> nat \<Rightarrow> nat \<Rightarrow> bool" where
  "cell a b2j r c \<longleftrightarrow> r < length a \<and> c < length a \<and> a ! r = a ! c \<and> b2j (a ! r) \<noteq> []"

fun match_len :: "'a list \<Rightarrow> ('a \<Rightarrow> nat list) \<Rightarrow> nat \<Rightarrow> nat \<Rightarrow> nat" where
  "match_len a b2j 0 c = (if cell a b2j 0 c then 1 else 0)"
| "match_len a b2j (Suc r) 0 = (if cell a b2j (Suc r) 0 then 1 else 0)"
| "match_len a b2j (Suc r) (Suc c) =
     (if cell a b2j (Suc r) (Suc c) then match_len a b2j r c + 1 else 0)"

definition row_of :: "'a list \<Rightarrow> ('a \<Rightarrow> nat list) \<Rightarrow> nat \<Rightarrow> nat \<rightharpoonup> nat" where
  "row_of a b2j i =
     (case i of
        0 \<Rightarrow> Map.empty
      | Suc r \<Rightarrow> (\<lambda>c. if match_len a b2j r c = 0 then None else Some (match_len a b2j r c)))"

text \<open>
  The diff engine on two documents given by their pages: the detailed entries of the
  unified diff of the two texts.  \<open>entry_kinds\<close> is the set of the pairs of kind and
  content of the entries, and \<open>swap_type\<close> exchanges the two kinds.
\<close>

definition diff_entries :: "string list \<Rightarrow> string list \<Rightarrow> string \<Rightarrow> string \<Rightarrow> difference list" where
  "diff_entries pages1 pages2 fromfile tofile =
     (let lines1 = splitlines (join_lf pages1);
          lines2 = splitlines (join_lf pages2)
      in extract_detailed_positions (unified_diff lines1 lines2 fromfile tofile)
           lines1 lines2 pages1 pages2)"

definition entry_kinds :: "difference list \<Rightarrow> (string \<times> string) set" where
  "entry_kinds ds = set (map (\<lambda>d. (d_type d, d_content d)) ds)"

definition swap_type :: "string \<times> string \<Rightarrow> string \<times> string" where
  "swap_type tc = (if fst tc = ''removed'' then ''added'' else ''removed'', snd tc)"


subsection \<open>Invariants of the sequence matcher and of the diff\<close>

text \<open>
  The index \<open>b2j\<close> is sound for \<open>b\<close>: every position it lists for an element holds that
  element.
\<close>

definition b2j_sound :: "'a list \<Rightarrow> ('a \<Rightarrow> nat list) \<Rightarrow> bool" where
  "b2j_sound b b2j \<longleftrightarrow> (\<forall>x j. j \<in> set (b2j x) \<longrightarrow> j < length b \<and> b ! j = x)"

text \<open>
  A triple \<open>(i, j, k)\<close> is a match inside the window \<open>a[alo:ahi]\<close>, \<open>b[blo:bhi]\<close>: it stays in
  the window and \<open>a[i:i+k] == b[j:j+k]\<close>.
\<close>

definition valid_match :: "'a list \<Rightarrow> 'a list \<Rightarrow> nat \<Rightarrow> nat \<Rightarrow> nat \<Rightarrow> nat \<Rightarrow> match \<Rightarrow> bool" where
  "valid_match a b alo ahi blo bhi m \<longleftrightarrow>
     (case m of (i, j, k) \<Rightarrow>
        alo \<le> i \<and> i + k \<le> ahi \<and> blo \<le> j \<and> j + k \<le> bhi \<and> (\<forall>t < k. a ! (i + t) = b ! (j + t)))"

text \<open>
  The invariant of the dict \<open>j2len\<close> before row \<open>i\<close> of \<open>find_longest_match\<close>: an entry \<open>v\<close> at
  \<open>j\<close> is the length of a common run that ends at \<open>a[i-1]\<close> and \<open>b[j]\<close> inside the window.
\<close>

definition valid_row :: "'a list \<Rightarrow> 'a list \<Rightarrow> nat \<Rightarrow> nat \<Rightarrow> nat \<Rightarrow> (nat \<rightharpoonup> nat) \<Rightarrow> bool" where
  "valid_row a b alo blo i j2len \<longleftrightarrow>
     (\<forall>j v. j2len j = Some v \<longrightarrow>
        0 < v \<and> v + alo \<le> i \<and> v + blo \<le> j + 1 \<and> (\<forall>t < v. a ! (i - 1 - t) = b ! (j - t)))"

text \<open>
  A matching block lies inside both sequences and its two runs are equal.
\<close>

definition block_ok :: "'a list \<Rightarrow> 'a list \<Rightarrow> match \<Rightarrow> bool" where
  "block_ok a b m \<longleftrightarrow>
     (case m of (i, j, k) \<Rightarrow>
        i + k \<le> length a \<and> j + k \<le> length b \<and> (\<forall>t < k. a ! (i + t) = b ! (j + t)))"

text \<open>
  A queue item of \<open>get_matching_blocks\<close> is a window of both sequences.
\<close>

definition range_ok :: "'a list \<Rightarrow> 'a list \<Rightarrow> nat \<times> nat \<times> nat \<times> nat \<Rightarrow> bool" where
  "range_ok a b q \<longleftrightarrow>
     (case q of (alo, ahi, blo, bhi) \<Rightarrow>
        alo \<le> ahi \<and> ahi \<le> length a \<and> blo \<le> bhi \<and> bhi \<le> length b)"

text \<open>
  Position \<open>x\<close> of \<open>a\<close> is covered by an opcode that is not an insertion; if that opcode is
  \<open>equal\<close>, the element at \<open>x\<close> also occurs in \<open>b\<close>.
\<close>

definition cov_a :: "'a list \<Rightarrow> 'a list \<Rightarrow> opcode list \<Rightarrow> nat \<Rightarrow> bool" where
  "cov_a a b codes x \<longleftrightarrow>
     (\<exists>(tag, i1, i2, j1, j2) \<in> set codes.
        i1 \<le> x \<and> x < i2 \<and> tag \<noteq> Insert \<and> (tag = Equal \<longrightarrow> a ! x \<in> set b))"

text \<open>
  Position \<open>y\<close> of \<open>b\<close> is covered by an opcode that is not a deletion; if that opcode is
  \<open>equal\<close>, the element at \<open>y\<close> also occurs in \<open>a\<close>.
\<close>

definition cov_b :: "'a list \<Rightarrow> 'a list \<Rightarrow> opcode list \<Rightarrow> nat \<Rightarrow> bool" where
  "cov_b a b codes y \<longleftrightarrow>
     (\<exists>(tag, i1, i2, j1, j2) \<in> set codes.
        j1 \<le> y \<and> y < j2 \<and> tag \<noteq> Delete \<and> (tag = Equal \<longrightarrow> b ! y \<in> set a))"

text \<open>
  The values of the cursors \<open>i\<close>, \<open>j\<close> of \<open>get_opcodes\<close> after its loop over the blocks.
\<close>

fun final_pos :: "match list \<Rightarrow> nat \<times> nat \<Rightarrow> nat \<times> nat" where
  "final_pos [] p = p"
| "final_pos ((ai, bj, sz) # blocks) p = final_pos blocks (ai + sz, bj + sz)"

text \<open>
  The opcodes that one iteration of the loop of \<open>get_opcodes\<close> appends to \<open>answer\<close>.
\<close>

definition opcode_step :: "nat \<Rightarrow> nat \<Rightarrow> match \<Rightarrow> opcode list" where
  "opcode_step i j m =
     (case m of (ai, bj, sz) \<Rightarrow>
        (if i < ai \<and> j < bj then [(Replace, i, ai, j, bj)]
         else if i < ai then [(Delete, i, ai, j, bj)]
         else if j < bj then [(Insert, i, ai, j, bj)]
         else [])
        @ (if sz \<noteq> 0 then [(Equal, ai, ai + sz, bj, bj + sz)] else []))"

text \<open>
  The kinds and contents that \<open>_extract_detailed_positions\<close> reports for a list of diff
  lines: a line starting with \<open>-\<close> but not \<open>---\<close> is reported as removed, a line starting
  with \<open>+\<close> but not \<open>+++\<close> as added, each with its first character dropped.
\<close>

definition reported :: "string list \<Rightarrow> (string \<times> string) set" where
  "reported diff =
     (\<lambda>l. (''removed'', drop 1 l)) ` {l \<in> set diff. startswith l ''-'' \<and> \<not> startswith l ''---''}
     \<union> (\<lambda>l. (''added'', drop 1 l)) ` {l \<in> set diff. startswith l ''+'' \<and> \<not> startswith l ''+++''}"

section \<open>Resolution of a global line number\<close>

lemma page_spans_prefix_le:
  "sum_list (take k (page_spans pages)) \<le> sum_list (page_spans pages)"
proof -
  have "sum_list (page_spans pages)
        = sum_list (take k (page_spans pages)) + sum_list (drop k (page_spans pages))"
    by (metis append_take_drop_id sum_list_append)
  moreover have "0 \<le> sum_list (drop k (page_spans pages))"
    by (rule sum_list_nonneg) (auto simp: page_spans_def dest!: in_set_dropD)
  ultimately show ?thesis by simp
qed

lemma find_page_loop_None:
  "(\<forall>k < length pages. base + sum_list (take (Suc k) (page_spans pages)) < n)
   \<Longrightarrow> find_page_loop n pages idx base = None"
proof (induction pages arbitrary: idx base)
  case Nil
  show ?case by simp
next
  case (Cons p ps)
  have first: "base + int (length (splitlines p)) < n"
    using Cons.prems [rule_format, of 0] by (simp add: page_spans_def)
  have rest: "\<forall>k < length ps.
      (base + int (length (splitlines p))) + sum_list (take (Suc k) (page_spans ps)) < n"
  proof (intro allI impI)
    fix k assume "k < length ps"
    then have "base + sum_list (take (Suc (Suc k)) (page_spans (p # ps))) < n"
      using Cons.prems by simp
    then show "(base + int (length (splitlines p))) + sum_list (take (Suc k) (page_spans ps)) < n"
      by (simp add: page_spans_def add.assoc)
  qed
  show ?case
    using first Cons.IH [OF rest] by (simp add: Let_def)
qed

lemma find_page_loop_Some:
  "k < length pages
   \<Longrightarrow> n \<le> base + sum_list (take (Suc k) (page_spans pages))
   \<Longrightarrow> (\<forall>k' < k. base + sum_list (take (Suc k') (page_spans pages)) < n)
   \<Longrightarrow> find_page_loop n pages idx base
        = Some (idx + k + 1, n - (base + sum_list (take k (page_spans pages))))"
proof (induction pages arbitrary: idx base k)
  case Nil
  then show ?case by simp
next
  case (Cons p ps)
  show ?case
  proof (cases k)
    case 0
    then show ?thesis
      using Cons.prems(2) by (simp add: page_spans_def Let_def)
  next
    case (Suc m)
    have first: "base + int (length (splitlines p)) < n"
      using Cons.prems(3) [rule_format, of 0] Suc by (simp add: page_spans_def)
    have m_len: "m < length ps"
      using Cons.prems(1) Suc by simp
    have upper: "n \<le> (base + int (length (splitlines p))) + sum_list (take (Suc m) (page_spans ps))"
      using Cons.prems(2) Suc by (simp add: page_spans_def add.assoc)
    have lower: "\<forall>k' < m.
        (base + int (length (splitlines p))) + sum_list (take (Suc k') (page_spans ps)) < n"
    proof (intro allI impI)
      fix k' assume "k' < m"
      then have "base + sum_list (take (Suc (Suc k')) (page_spans (p # ps))) < n"
        using Cons.prems(3) Suc by simp
      then show "(base + int (length (splitlines p))) + sum_list (take (Suc k') (page_spans ps)) < n"
        by (simp add: page_spans_def add.assoc)
    qed
    have "find_page_loop n ps (idx + 1) (base + int (length (splitlines p)))
          = Some (idx + 1 + m + 1,
                  n - ((base + int (length (splitlines p))) + sum_list (take m (page_spans ps))))"
      by (rule Cons.IH [OF m_len upper lower])
    then show ?thesis
      using first Suc by (simp add: Let_def page_spans_def add.assoc)
  qed
qed

text \<open>
  Claim C3.  For every global line number \<open>n\<close> and every non-empty list of pages: if
  page \<open>k + 1\<close> is the first page whose cumulative span (the page included) is at least
  \<open>n\<close>, the resolution returns that page, with the in-page line number \<open>n\<close> minus the
  cumulative span of the pages before it; and if \<open>n\<close> exceeds the total span of all
  pages, it returns the last page with in-page line 0.
\<close>

theorem find_page_for_line_resolution:
  assumes "pages \<noteq> []"
  shows "(k < length pages \<and> n \<le> cumulative_span pages (Suc k)
            \<and> (\<forall>k' < k. cumulative_span pages (Suc k') < n)
          \<longrightarrow> find_page_for_line n pages = (k + 1, n - cumulative_span pages k))
       \<and> (cumulative_span pages (length pages) < n
          \<longrightarrow> find_page_for_line n pages = (length pages, 0))"
proof (intro conjI impI)
  assume h: "k < length pages \<and> n \<le> cumulative_span pages (Suc k)
      \<and> (\<forall>k' < k. cumulative_span pages (Suc k') < n)"
  have "find_page_loop n pages 0 0
        = Some (0 + k + 1, n - (0 + sum_list (take k (page_spans pages))))"
    by (rule find_page_loop_Some) (use h in \<open>simp_all add: cumulative_span_def\<close>)
  then show "find_page_for_line n pages = (k + 1, n - cumulative_span pages k)"
    by (simp add: find_page_for_line_def cumulative_span_def)
next
  assume h: "cumulative_span pages (length pages) < n"
  have none: "find_page_loop n pages 0 0 = None"
  proof (rule find_page_loop_None, intro allI impI)
    fix k assume k: "k < length pages"
    have "sum_list (take (Suc k) (page_spans pages)) \<le> sum_list (page_spans pages)"
      by (rule page_spans_prefix_le)
    then show "0 + sum_list (take (Suc k) (page_spans pages)) < n"
      using h by (simp add: cumulative_span_def page_spans_def)
  qed
  then show "find_page_for_line n pages = (length pages, 0)"
    by (simp add: find_page_for_line_def)
qed

theorem find_page_for_line_resolution_witness:
  "[''A\<newline>B'', ''C''] \<noteq> []
   \<and> (1::nat) < length [''A\<newline>B'', ''C'']
   \<and> 3 \<le> cumulative_span [''A\<newline>B'', ''C''] (Suc 1)
   \<and> cumulative_span [''A\<newline>B'', ''C''] (Suc 0) < 3
   \<and> find_page_for_line 3 [''A\<newline>B'', ''C''] = (2, 1)
   \<and> cumulative_span [''A\<newline>B'', ''C''] (length [''A\<newline>B'', ''C'']) < 4
   \<and> find_page_for_line 4 [''A\<newline>B'', ''C''] = (2, 0)"
proof -
  have spans: "page_spans [''A\<newline>B'', ''C''] = [2, 1]"
    by (simp add: page_spans_def splitlines_def CR_def LF_def is_linebreak_def)
  have h1: "(1::nat) < length [''A\<newline>B'', ''C'']
      \<and> 3 \<le> cumulative_span [''A\<newline>B'', ''C''] (Suc 1)
      \<and> (\<forall>k' < 1. cumulative_span [''A\<newline>B'', ''C''] (Suc k') < 3)"
    by (simp add: cumulative_span_def spans)
  have h2: "cumulative_span [''A\<newline>B'', ''C''] (length [''A\<newline>B'', ''C'']) < 4"
    by (simp add: cumulative_span_def spans)
  have c1: "cumulative_span [''A\<newline>B'', ''C''] 1 = 2"
    by (simp add: cumulative_span_def spans)
  have ne: "[''A\<newline>B'', ''C''] \<noteq> []"
    by simp
  show ?thesis
    using find_page_for_line_resolution [OF ne, of 1 3] find_page_for_line_resolution [OF ne, of 0 4]
      h1 h2 c1
    by simp
qed


section \<open>The aggregate of a comprehensive comparison\<close>

lemma collect_identical_eq:
  "collect_identical rs acc
   = acc @ map (\<lambda>r. the (identical r)) (filter (\<lambda>r. error r = None \<and> identical r \<noteq> None) rs)"
  by (induction rs arbitrary: acc) auto

lemma identical_set_eq:
  "identical_set res
   = map (\<lambda>r. the (identical r)) (filter (\<lambda>r. error r = None \<and> identical r \<noteq> None) (map snd res))"
  by (induction res) (auto simp: identical_set_def split: option.splits)

lemma collect_identical_set: "collect_identical (map snd res) [] = identical_set res"
  by (simp add: collect_identical_eq identical_set_eq)

lemma comprehensive_compare_Inr:
  assumes "path_exists be p1" "path_exists be p2"
  shows "comprehensive_compare caps be p1 p2 ms =
     Inr \<lparr>files = (p1, p2),
          methods_used = methods_to_use caps ms,
          results = run_methods caps be p1 p2 (methods_to_use caps ms),
          summary = summarize (run_methods caps be p1 p2 (methods_to_use caps ms))\<rparr>"
  using assms by (simp add: comprehensive_compare_def Let_def)

lemma comprehensive_compare_summary:
  assumes "comprehensive_compare caps be p1 p2 ms = Inr rep"
  shows "summary rep = summarize (results rep)"
    and "\<exists>methods. results rep = run_methods caps be p1 p2 methods"
  using assms by (auto simp: comprehensive_compare_def Let_def split: if_splits)

text \<open>
  Claim C6.  For every comprehensive comparison over existing files the report is
  produced, and in its summary \<open>overall_identical\<close> is the conjunction of the
  \<open>identical\<close> values collected from the method results that did not fail (a result
  without an \<open>identical\<close> key contributes nothing), and is false when nothing was
  collected; \<open>has_errors\<close> is true exactly when some method result failed.
\<close>

theorem aggregation_rule:
  assumes "path_exists be p1" and "path_exists be p2"
  shows "\<exists>rep. comprehensive_compare caps be p1 p2 ms = Inr rep
     \<and> overall_identical (summary rep)
         = (identical_set (results rep) \<noteq> [] \<and> (\<forall>b \<in> set (identical_set (results rep)). b))
     \<and> has_errors (summary rep) = (failed_results (results rep) \<noteq> [])"
proof -
  obtain rep where rep: "comprehensive_compare caps be p1 p2 ms = Inr rep"
    using comprehensive_compare_Inr [OF assms] by blast
  have s: "summary rep = summarize (results rep)"
    by (rule comprehensive_compare_summary(1) [OF rep])
  have a: "overall_identical (summarize (results rep))
      = (identical_set (results rep) \<noteq> [] \<and> (\<forall>b \<in> set (identical_set (results rep)). b))"
    by (auto simp: summarize_def Let_def collect_identical_set list_all_iff)
  have b: "has_errors (summarize (results rep)) = (failed_results (results rep) \<noteq> [])"
    by (force simp: summarize_def Let_def failed_results_def list_ex_iff filter_empty_conv)
  show ?thesis using rep s a b by simp
qed

lemma basic_info_no_identical: "identical (compare_basic_info be p1 p2) = None"
  by (simp add: compare_basic_info_def failed_def Let_def split: sum.splits)

lemma compare_text_identical:
  "error (compare_text caps be p1 p2 d) = None \<longrightarrow> identical (compare_text caps be p1 p2 d) \<noteq> None"
  by (simp add: compare_text_def text_result_def failed_def Let_def split: sum.split)

lemma compare_visual_identical:
  "error (compare_visual caps be p1 p2 dpi) = None
   \<longrightarrow> identical (compare_visual caps be p1 p2 dpi) \<noteq> None"
  by (simp add: compare_visual_def failed_def Let_def split: sum.split)

lemma compare_structure_identical:
  "error (compare_structure caps be p1 p2) = None
   \<longrightarrow> identical (compare_structure caps be p1 p2) \<noteq> None"
  by (simp add: compare_structure_def failed_def Let_def split: sum.split)

lemma compare_metadata_identical:
  "error (compare_metadata caps be p1 p2) = None
   \<longrightarrow> identical (compare_metadata caps be p1 p2) \<noteq> None"
  by (simp add: compare_metadata_def failed_def Let_def split: sum.split)

lemma run_methods_counted:
  "(name, r) \<in> set (run_methods caps be p1 p2 methods)
   \<Longrightarrow> (name = ''basic_info'' \<longrightarrow> \<not> counted r)
     \<and> (name \<noteq> ''basic_info'' \<longrightarrow> (counted r \<longleftrightarrow> error r = None))"
  unfolding run_methods_def counted_def
  using basic_info_no_identical compare_text_identical compare_visual_identical
    compare_structure_identical compare_metadata_identical
  by (auto split: if_splits)

lemma length_counted:
  "(\<And>name r. (name, r) \<in> set res
      \<Longrightarrow> (name = ''basic_info'' \<longrightarrow> \<not> counted r)
        \<and> (name \<noteq> ''basic_info'' \<longrightarrow> (counted r \<longleftrightarrow> error r = None)))
   \<Longrightarrow> length (filter counted (map snd res)) + length (failed_results (selected_results res))
       = length (selected_results res)"
proof (induction res)
  case Nil
  then show ?case by (simp add: failed_results_def selected_results_def)
next
  case (Cons x res)
  obtain name r where x: "x = (name, r)" by (cases x)
  have hd: "(name = ''basic_info'' \<longrightarrow> \<not> counted r)
        \<and> (name \<noteq> ''basic_info'' \<longrightarrow> (counted r \<longleftrightarrow> error r = None))"
    using Cons.prems [of name r] x by simp
  have tl: "length (filter counted (map snd res)) + length (failed_results (selected_results res))
       = length (selected_results res)"
    by (rule Cons.IH) (use Cons.prems in auto)
  show ?case
    using hd tl x by (auto simp: failed_results_def selected_results_def)
qed

lemma checks_passed_le: "checks_passed (summarize res) \<le> checks_total (summarize res)"
proof -
  have "sum_list (map (\<lambda>b. if b then 1 else 0) bs) \<le> length bs" for bs :: "bool list"
    by (induction bs) auto
  then show ?thesis
    by (simp add: summarize_def Let_def)
qed

text \<open>
  Claim C7, as amended.  For every comprehensive comparison over existing files,
  \<open>checks_passed\<close> is at most \<open>checks_total\<close>, and \<open>checks_total\<close> is the number of
  selected methods that ran (the results other than the always-run basic-info) minus the
  number of those that failed: basic-info is never counted.
\<close>

theorem checks_total_selected:
  assumes "path_exists be p1" and "path_exists be p2"
  shows "\<exists>rep. comprehensive_compare caps be p1 p2 ms = Inr rep
     \<and> checks_passed (summary rep) \<le> checks_total (summary rep)
     \<and> checks_total (summary rep)
         = length (selected_results (results rep))
           - length (failed_results (selected_results (results rep)))"
proof -
  obtain rep where rep: "comprehensive_compare caps be p1 p2 ms = Inr rep"
    using comprehensive_compare_Inr [OF assms] by blast
  have s: "summary rep = summarize (results rep)"
    by (rule comprehensive_compare_summary(1) [OF rep])
  obtain methods where r: "results rep = run_methods caps be p1 p2 methods"
    using comprehensive_compare_summary(2) [OF rep] by blast
  have "length (filter counted (map snd (results rep)))
          + length (failed_results (selected_results (results rep)))
        = length (selected_results (results rep))"
    by (rule length_counted) (use r run_methods_counted in auto)
  moreover have "checks_total (summarize (results rep))
        = length (filter counted (map snd (results rep)))"
    by (simp add: summarize_def Let_def collect_identical_eq counted_def comp_def)
  ultimately have "checks_total (summary rep)
         = length (selected_results (results rep))
           - length (failed_results (selected_results (results rep)))"
    using s by simp
  moreover have "checks_passed (summary rep) \<le> checks_total (summary rep)"
    using s checks_passed_le [of "results rep"] by simp
  ultimately show ?thesis
    using rep by blast
qed

lemma sample_basic_only:
  "comprehensive_compare no_capabilities sample_backend ''a.pdf'' ''a.pdf'' (Some [])
   = Inr \<lparr>files = (''a.pdf'', ''a.pdf''), methods_used = [],
          results = [(''basic_info'',
             \<lparr>error = None, method_name = Some ''basic_info'', identical = None,
              details = BasicDetails \<lparr>pdf1 = 100, pdf2 = 100, same = True\<rparr>
                          (Some \<lparr>pdf1 = 1, pdf2 = 1, same = True\<rparr>)\<rparr>)],
          summary = \<lparr>overall_identical = False, checks_passed = 0, checks_total = 0,
                     has_errors = False\<rparr>\<rparr>"
  by (simp add: comprehensive_compare_def run_methods_def compare_basic_info_def
      methods_to_use_def sample_backend_def summarize_def Let_def)

lemma sample_exists: "path_exists sample_backend p"
  by (simp add: sample_backend_def)

lemma sample_visual_only:
  "comprehensive_compare all_capabilities sample_backend ''a.pdf'' ''b.pdf''
     (Some [''visual_comparison''])
   = Inr \<lparr>files = (''a.pdf'', ''b.pdf''), methods_used = [''visual_comparison''],
          results =
            [(''basic_info'',
              \<lparr>error = None, method_name = Some ''basic_info'', identical = None,
               details = BasicDetails \<lparr>pdf1 = 100, pdf2 = 100, same = True\<rparr>
                           (Some \<lparr>pdf1 = 1, pdf2 = 1, same = True\<rparr>)\<rparr>),
             (''visual_comparison'',
              \<lparr>error = Some (PageCountDiffer 1 2), method_name = Some ''visual_comparison'',
               identical = Some False, details = NoDetails\<rparr>)],
          summary = \<lparr>overall_identical = False, checks_passed = 0, checks_total = 0,
                     has_errors = True\<rparr>\<rparr>"
  by (simp add: comprehensive_compare_def run_methods_def compare_basic_info_def
      compare_visual_def methods_to_use_def all_capabilities_def
      sample_backend_def summarize_def Let_def)

lemma sample_structure_metadata:
  "comprehensive_compare all_capabilities sample_backend ''a.pdf'' ''b.pdf''
     (Some [''structure_analysis'', ''metadata_comparison''])
   = Inr \<lparr>files = (''a.pdf'', ''b.pdf''),
          methods_used = [''structure_analysis'', ''metadata_comparison''],
          results =
            [(''basic_info'',
              \<lparr>error = None, method_name = Some ''basic_info'', identical = None,
               details = BasicDetails \<lparr>pdf1 = 100, pdf2 = 100, same = True\<rparr>
                           (Some \<lparr>pdf1 = 1, pdf2 = 1, same = True\<rparr>)\<rparr>),
             (''structure_analysis'',
              \<lparr>error = None, method_name = Some ''structure_comparison'', identical = Some True,
               details = StructureDetails \<lparr>pdf1 = 1, pdf2 = 1, same = True\<rparr>
                           [\<lparr>ti_page = 1, tables_pdf1 = 0, tables_pdf2 = 0,
                             ti_identical = True\<rparr>]\<rparr>),
             (''metadata_comparison'',
              \<lparr>error = None, method_name = Some ''metadata_comparison'', identical = Some True,
               details = MetadataDetails \<lparr>pdf1 = ''a.pdf'', pdf2 = ''b.pdf'', same = False\<rparr> []\<rparr>)],
          summary = \<lparr>overall_identical = True, checks_passed = 2, checks_total = 2,
                     has_errors = False\<rparr>\<rparr>"
  by (simp add: comprehensive_compare_def run_methods_def compare_basic_info_def
      compare_structure_def compare_metadata_def calculate_hash_def methods_to_use_def
      all_capabilities_def sample_backend_def summarize_def Let_def)

theorem aggregation_rule_witness:
  "path_exists sample_backend ''a.pdf'' \<and> path_exists sample_backend ''b.pdf''
   \<and> map_sum id (\<lambda>rep. (overall_identical (summary rep), has_errors (summary rep),
                           identical_set (results rep), length (failed_results (results rep))))
        (comprehensive_compare all_capabilities sample_backend ''a.pdf'' ''b.pdf''
           (Some [''structure_analysis'', ''metadata_comparison'']))
      = Inr (True, False, [True, True], 0)"
  using aggregation_rule [where be = sample_backend and ?p1.0 = "''a.pdf''" and ?p2.0 = "''b.pdf''"
      and caps = all_capabilities and ms = "Some [''structure_analysis'', ''metadata_comparison'']"]
  by (simp add: sample_exists sample_structure_metadata)
    (simp add: identical_set_def failed_results_def)

text \<open>
  Claim C7 as stated fails: with no method selected, basic-info runs and does not fail,
  so one method ran and none failed, and yet \<open>checks_total\<close> is 0.
\<close>

theorem checks_total_counts_basic_info_counterexample:
  "map_sum id (\<lambda>rep. (checks_total (summary rep), length (results rep),
                        length (failed_results (results rep))))
     (comprehensive_compare no_capabilities sample_backend ''a.pdf'' ''a.pdf'' (Some []))
   = Inr (0, 1, 0)"
  by (simp add: sample_basic_only failed_results_def)

theorem checks_total_selected_witness:
  "path_exists sample_backend ''a.pdf'' \<and> path_exists sample_backend ''b.pdf''
   \<and> map_sum id (\<lambda>rep. (checks_passed (summary rep), checks_total (summary rep),
                           length (selected_results (results rep)),
                           length (failed_results (selected_results (results rep)))))
        (comprehensive_compare all_capabilities sample_backend ''a.pdf'' ''b.pdf''
           (Some [''visual_comparison'']))
      = Inr (0, 0, 1, 1)"
  using checks_total_selected [where be = sample_backend and ?p1.0 = "''a.pdf''"
      and ?p2.0 = "''b.pdf''" and caps = all_capabilities and ms = "Some [''visual_comparison'']"]
  by (simp add: sample_exists sample_visual_only selected_results_def failed_results_def)

text \<open>
  Claim C8.  For each of the text, visual, structure and metadata comparators: when its
  capability flag is false, the comparator returns the failed result whose message says
  that the method is unavailable, and the result is the same whatever the backend is
  (no backend function is consulted).
\<close>

theorem unavailable_comparator_fails:
  "(\<not> text_comparison caps \<longrightarrow>
      compare_text caps be p1 p2 detailed = failed TextUnavailable
      \<and> compare_text caps be' p1 p2 detailed = compare_text caps be p1 p2 detailed)
   \<and> (\<not> visual_comparison caps \<longrightarrow>
      compare_visual caps be p1 p2 dpi = failed VisualUnavailable
      \<and> compare_visual caps be' p1 p2 dpi = compare_visual caps be p1 p2 dpi)
   \<and> (\<not> structure_analysis caps \<longrightarrow>
      compare_structure caps be p1 p2 = failed StructureUnavailable
      \<and> compare_structure caps be' p1 p2 = compare_structure caps be p1 p2)
   \<and> (\<not> metadata_comparison caps \<longrightarrow>
      compare_metadata caps be p1 p2 = failed MetadataUnavailable
      \<and> compare_metadata caps be' p1 p2 = compare_metadata caps be p1 p2)"
  by (simp add: compare_text_def compare_visual_def compare_structure_def compare_metadata_def)

theorem unavailable_comparator_fails_witness:
  "\<not> text_comparison no_capabilities \<and> \<not> visual_comparison no_capabilities
   \<and> \<not> structure_analysis no_capabilities \<and> \<not> metadata_comparison no_capabilities
   \<and> error (compare_text no_capabilities sample_backend ''a.pdf'' ''b.pdf'' True)
        = Some TextUnavailable
   \<and> error (compare_visual no_capabilities sample_backend ''a.pdf'' ''b.pdf'' 150)
        = Some VisualUnavailable
   \<and> error (compare_structure no_capabilities sample_backend ''a.pdf'' ''b.pdf'')
        = Some StructureUnavailable
   \<and> error (compare_metadata no_capabilities sample_backend ''a.pdf'' ''b.pdf'')
        = Some MetadataUnavailable"
  using unavailable_comparator_fails [where caps = no_capabilities and be = sample_backend
      and be' = sample_backend and ?p1.0 = "''a.pdf''" and ?p2.0 = "''b.pdf''"
      and detailed = True and dpi = 150]
  by (simp add: no_capabilities_def failed_def)

lemma identical_set_without_failed:
  "\<forall>(name, r) \<in> set res. name = key \<longrightarrow> error r \<noteq> None
   \<Longrightarrow> identical_set res = identical_set (filter (\<lambda>(name, r). name \<noteq> key) res)"
  by (induction res) (auto simp: identical_set_def)

text \<open>
  Claim C9.  When the two documents render to different numbers of pages, the visual
  comparator returns the result that carries the page-count message (not the generic
  failure), with no per-page similarity and independently of the resizing backend; in
  the comprehensive comparison that result is among the results, \<open>has_errors\<close> holds,
  and its \<open>identical\<close> value is not collected: the collected values, and hence
  \<open>overall_identical\<close>, are those of the results without it.
\<close>

theorem visual_page_count_mismatch:
  assumes "visual_comparison caps"
    and "convert_from_path be p1 150 = Inr images1"
    and "convert_from_path be p2 150 = Inr images2"
    and "length images1 \<noteq> length images2"
    and "path_exists be p1" and "path_exists be p2"
    and "''visual_comparison'' \<in> set (methods_to_use caps ms)"
  shows "compare_visual caps be p1 p2 150
           = \<lparr>error = Some (PageCountDiffer (length images1) (length images2)),
              method_name = Some ''visual_comparison'',
              identical = Some False,
              details = NoDetails\<rparr>
       \<and> compare_visual caps (be\<lparr>resize := f\<rparr>) p1 p2 150 = compare_visual caps be p1 p2 150
       \<and> (\<exists>rep. comprehensive_compare caps be p1 p2 ms = Inr rep
            \<and> (''visual_comparison'', compare_visual caps be p1 p2 150) \<in> set (results rep)
            \<and> has_errors (summary rep)
            \<and> identical_set (results rep)
                = identical_set (filter (\<lambda>(name, r). name \<noteq> ''visual_comparison'') (results rep))
            \<and> overall_identical (summary rep)
                = (let others = identical_set
                         (filter (\<lambda>(name, r). name \<noteq> ''visual_comparison'') (results rep))
                   in others \<noteq> [] \<and> list_all id others))"
proof -
  let ?v = "compare_visual caps be p1 p2 150"
  have v: "?v = \<lparr>error = Some (PageCountDiffer (length images1) (length images2)),
              method_name = Some ''visual_comparison'',
              identical = Some False,
              details = NoDetails\<rparr>"
    using assms(1-4) by (simp add: compare_visual_def)
  have v': "compare_visual caps (be\<lparr>resize := f\<rparr>) p1 p2 150 = ?v"
    using assms(1-4) by (simp add: compare_visual_def)
  let ?res = "run_methods caps be p1 p2 (methods_to_use caps ms)"
  have rep: "comprehensive_compare caps be p1 p2 ms =
     Inr \<lparr>files = (p1, p2), methods_used = methods_to_use caps ms,
          results = ?res, summary = summarize ?res\<rparr>"
    by (rule comprehensive_compare_Inr [OF assms(5,6)])
  have mem: "(''visual_comparison'', ?v) \<in> set ?res"
    using assms(7) by (simp add: run_methods_def)
  have err: "has_errors (summarize ?res)"
    using mem v by (force simp: summarize_def Let_def list_ex_iff)
  have only: "\<forall>(name, r) \<in> set ?res. name = ''visual_comparison'' \<longrightarrow> error r \<noteq> None"
    using v by (auto simp: run_methods_def split: if_splits)
  have ids: "identical_set ?res
      = identical_set (filter (\<lambda>(name, r). name \<noteq> ''visual_comparison'') ?res)"
    by (rule identical_set_without_failed [OF only])
  have ov: "overall_identical (summarize ?res)
      = (let others = identical_set (filter (\<lambda>(name, r). name \<noteq> ''visual_comparison'') ?res)
         in others \<noteq> [] \<and> list_all id others)"
    using ids by (simp add: summarize_def Let_def collect_identical_set)
  show ?thesis
    using v v' rep mem err ids ov by simp
qed

theorem visual_page_count_mismatch_witness:
  "visual_comparison all_capabilities
   \<and> convert_from_path sample_backend ''a.pdf'' 150 = Inr [sample_image]
   \<and> convert_from_path sample_backend ''b.pdf'' 150 = Inr [sample_image, sample_image]
   \<and> length [sample_image] \<noteq> length [sample_image, sample_image]
   \<and> path_exists sample_backend ''a.pdf'' \<and> path_exists sample_backend ''b.pdf''
   \<and> ''visual_comparison'' \<in> set (methods_to_use all_capabilities (Some [''visual_comparison'']))
   \<and> error (compare_visual all_capabilities sample_backend ''a.pdf'' ''b.pdf'' 150)
        = Some (PageCountDiffer 1 2)
   \<and> map_sum id (\<lambda>rep. (has_errors (summary rep), identical_set (results rep)))
        (comprehensive_compare all_capabilities sample_backend ''a.pdf'' ''b.pdf''
           (Some [''visual_comparison'']))
      = Inr (True, [])"
proof -
  have h1: "visual_comparison all_capabilities"
    by (simp add: all_capabilities_def)
  have h2: "convert_from_path sample_backend ''a.pdf'' 150 = Inr [sample_image]"
    by (simp add: sample_backend_def)
  have h3: "convert_from_path sample_backend ''b.pdf'' 150 = Inr [sample_image, sample_image]"
    by (simp add: sample_backend_def)
  have h4: "length [sample_image] \<noteq> length [sample_image, sample_image]"
    by simp
  have h7: "''visual_comparison'' \<in> set (methods_to_use all_capabilities (Some [''visual_comparison'']))"
    by (simp add: methods_to_use_def)
  show ?thesis
    using visual_page_count_mismatch [OF h1 h2 h3 h4 sample_exists sample_exists h7] h1 h2 h3 h7
    by (simp add: sample_exists sample_visual_only identical_set_def)
qed

text \<open>
  Claim C10.  The result of basic-info never carries an \<open>identical\<close> key; so for every
  pair of existing files, when none of the four gated methods is selected, basic-info is
  the only result, \<open>checks_total\<close> is 0 and \<open>overall_identical\<close> is false.
\<close>

theorem basic_info_never_counted:
  assumes "path_exists be p1" and "path_exists be p2"
    and "set (methods_to_use caps ms) \<inter> set gated_methods = {}"
  shows "identical (compare_basic_info be p1 p2) = None
       \<and> (\<exists>rep. comprehensive_compare caps be p1 p2 ms = Inr rep
            \<and> results rep = [(''basic_info'', compare_basic_info be p1 p2)]
            \<and> checks_total (summary rep) = 0
            \<and> \<not> overall_identical (summary rep))"
proof -
  let ?res = "run_methods caps be p1 p2 (methods_to_use caps ms)"
  have none: "identical (compare_basic_info be p1 p2) = None"
    by (rule basic_info_no_identical)
  have res: "?res = [(''basic_info'', compare_basic_info be p1 p2)]"
    using assms(3) by (auto simp: run_methods_def gated_methods_def)
  have rep: "comprehensive_compare caps be p1 p2 ms =
     Inr \<lparr>files = (p1, p2), methods_used = methods_to_use caps ms,
          results = ?res, summary = summarize ?res\<rparr>"
    by (rule comprehensive_compare_Inr [OF assms(1,2)])
  have s: "checks_total (summarize ?res) = 0 \<and> \<not> overall_identical (summarize ?res)"
    using none by (simp add: res summarize_def Let_def)
  show ?thesis
    using none res rep s by simp
qed

theorem basic_info_never_counted_witness:
  "path_exists sample_backend ''a.pdf''
   \<and> set (methods_to_use no_capabilities None) \<inter> set gated_methods = {}
   \<and> identical (compare_basic_info sample_backend ''a.pdf'' ''a.pdf'') = None
   \<and> map_sum id (\<lambda>rep. (map fst (results rep), checks_total (summary rep),
                           overall_identical (summary rep)))
        (comprehensive_compare no_capabilities sample_backend ''a.pdf'' ''a.pdf'' None)
      = Inr ([''basic_info''], 0, False)"
proof -
  have h: "set (methods_to_use no_capabilities None) \<inter> set gated_methods = {}"
    by (simp add: methods_to_use_def available_methods_def no_capabilities_def)
  show ?thesis
    using basic_info_never_counted [OF sample_exists sample_exists h, of "''a.pdf''" "''a.pdf''"] h
    by (auto simp: sample_exists)
qed


section \<open>The diff of identical sequences\<close>

lemma cell_sym: "cell a b2j r c \<Longrightarrow> cell a b2j c r"
  by (auto simp: cell_def)

lemma cell_diag: "cell a b2j r c \<Longrightarrow> cell a b2j r r"
  by (auto simp: cell_def)

lemma match_len_sym: "match_len a b2j r c = match_len a b2j c r"
proof (induction a b2j r c rule: match_len.induct)
  case (1 a b2j c)
  then show ?case by (cases c) (auto dest: cell_sym)
next
  case (2 a b2j r)
  then show ?case by (auto dest: cell_sym)
next
  case (3 a b2j r c)
  then show ?case by (auto dest: cell_sym)
qed

lemma match_len_diag: "match_len a b2j r c \<le> match_len a b2j r r"
proof (induction a b2j r c rule: match_len.induct)
  case (1 a b2j c)
  then show ?case by (auto dest: cell_diag)
next
  case (2 a b2j r)
  then show ?case by (auto dest: cell_diag)
next
  case (3 a b2j r c)
  then show ?case by (auto dest: cell_diag)
qed

lemma match_len_cell: "match_len a b2j r c \<noteq> 0 \<longleftrightarrow> cell a b2j r c"
  by (induction a b2j r c rule: match_len.induct) auto

lemma j2len_get_row:
  "cell a b2j i j \<Longrightarrow> j2len_get (row_of a b2j i) j + 1 = match_len a b2j i j"
proof (cases i)
  case 0
  assume "cell a b2j i j"
  then show ?thesis using 0 by (simp add: row_of_def j2len_get_def)
next
  case (Suc r)
  assume c: "cell a b2j i j"
  show ?thesis
  proof (cases j)
    case 0
    then show ?thesis using c Suc by (simp add: j2len_get_def)
  next
    case (Suc c')
    then show ?thesis using c \<open>i = Suc r\<close> by (simp add: j2len_get_def row_of_def)
  qed
qed

lemma flm_inner_diag:
  assumes "sorted_wrt (<) js"
    and "\<forall>j \<in> set js. j < n \<and> j2len_get j2len j + 1 = match_len a b2j i j"
    and "\<forall>j \<in> set js. j \<noteq> i \<longrightarrow> match_len a b2j i j \<le> bs \<or> (i \<in> set js \<and> i < j)"
    and "flm_inner i 0 n j2len js nj (d, d, bs) = (nj', best')"
  shows "\<exists>d' bs'. best' = (d', d', bs') \<and> bs \<le> bs'
           \<and> (\<forall>j \<in> set js. match_len a b2j i j \<le> bs')
           \<and> nj' = (\<lambda>c. if c \<in> set js then Some (match_len a b2j i c) else nj c)"
  using assms
proof (induction js arbitrary: nj d bs)
  case Nil
  then show ?case by auto
next
  case (Cons j js)
  let ?k = "match_len a b2j i j"
  have jn: "j < n" and k: "j2len_get j2len j + 1 = ?k"
    using Cons.prems(2) by auto
  have sorted_tl: "sorted_wrt (<) js" and j_less: "\<forall>j' \<in> set js. j < j'"
    using Cons.prems(1) by auto
  show ?case
  proof (cases "?k > bs")
    case True
    have ji: "j = i"
    proof (rule ccontr)
      assume "j \<noteq> i"
      then have "?k \<le> bs \<or> (i \<in> set (j # js) \<and> i < j)"
        using Cons.prems(3) by auto
      then show False
        using True \<open>j \<noteq> i\<close> j_less by auto
    qed
    have step: "flm_inner i 0 n j2len (j # js) nj (d, d, bs)
        = flm_inner i 0 n j2len js (nj(j \<mapsto> ?k)) (i + 1 - ?k, i + 1 - ?k, ?k)"
      using jn k True ji by (simp add: Let_def del: fun_upd_apply)
    have p2: "\<forall>j' \<in> set js. j' < n \<and> j2len_get j2len j' + 1 = match_len a b2j i j'"
      using Cons.prems(2) by auto
    have p3: "\<forall>j' \<in> set js. j' \<noteq> i \<longrightarrow> match_len a b2j i j' \<le> ?k \<or> (i \<in> set js \<and> i < j')"
      using ji match_len_diag [of a b2j i] by auto
    have p4: "flm_inner i 0 n j2len js (nj(j \<mapsto> ?k)) (i + 1 - ?k, i + 1 - ?k, ?k) = (nj', best')"
      using step Cons.prems(4) by simp
    obtain d' bs' where r: "best' = (d', d', bs')" "?k \<le> bs'"
        "\<forall>j' \<in> set js. match_len a b2j i j' \<le> bs'"
        "nj' = (\<lambda>c. if c \<in> set js then Some (match_len a b2j i c) else (nj(j \<mapsto> ?k)) c)"
      using Cons.IH [OF sorted_tl p2 p3 p4] by blast
    have "nj' = (\<lambda>c. if c \<in> set (j # js) then Some (match_len a b2j i c) else nj c)"
      using r(4) by auto
    then show ?thesis
      using r(1,2,3) True by auto
  next
    case False
    have step: "flm_inner i 0 n j2len (j # js) nj (d, d, bs)
        = flm_inner i 0 n j2len js (nj(j \<mapsto> ?k)) (d, d, bs)"
      using jn k False by (simp add: Let_def del: fun_upd_apply)
    have p2: "\<forall>j' \<in> set js. j' < n \<and> j2len_get j2len j' + 1 = match_len a b2j i j'"
      using Cons.prems(2) by auto
    have p3: "\<forall>j' \<in> set js. j' \<noteq> i \<longrightarrow> match_len a b2j i j' \<le> bs \<or> (i \<in> set js \<and> i < j')"
    proof (intro ballI impI)
      fix j' assume j': "j' \<in> set js" "j' \<noteq> i"
      then have "match_len a b2j i j' \<le> bs \<or> (i \<in> set (j # js) \<and> i < j')"
        using Cons.prems(3) by auto
      moreover have "match_len a b2j i j' \<le> bs" if "i = j"
        using that False match_len_diag [of a b2j i j'] by auto
      ultimately show "match_len a b2j i j' \<le> bs \<or> (i \<in> set js \<and> i < j')"
        by auto
    qed
    have p4: "flm_inner i 0 n j2len js (nj(j \<mapsto> ?k)) (d, d, bs) = (nj', best')"
      using step Cons.prems(4) by simp
    obtain d' bs' where r: "best' = (d', d', bs')" "bs \<le> bs'"
        "\<forall>j' \<in> set js. match_len a b2j i j' \<le> bs'"
        "nj' = (\<lambda>c. if c \<in> set js then Some (match_len a b2j i c) else (nj(j \<mapsto> ?k)) c)"
      using Cons.IH [OF sorted_tl p2 p3 p4] by blast
    have "nj' = (\<lambda>c. if c \<in> set (j # js) then Some (match_len a b2j i c) else nj c)"
      using r(4) by auto
    then show ?thesis
      using r(1,2,3) False by auto
  qed
qed

lemma chain_b_cases: "chain_b a x = [] \<or> chain_b a x = indices_of a x"
  by (simp add: chain_b_def Let_def)

lemma indices_of_sorted: "sorted_wrt (<) (indices_of a x)"
  unfolding indices_of_def by (rule sorted_wrt_filter) (rule sorted_wrt_upt)

lemma set_indices_of: "set (indices_of a x) = {j. j < length a \<and> a ! j = x}"
  by (auto simp: indices_of_def)

lemma flm_rows_diag:
  assumes b2j: "\<And>x. b2j x = [] \<or> b2j x = indices_of a x"
  shows "i \<le> length a \<Longrightarrow> j2len = row_of a b2j i
    \<Longrightarrow> (\<forall>r < i. \<forall>c. match_len a b2j r c \<le> bs)
    \<Longrightarrow> \<exists>d' bs'. flm_rows a b2j 0 (length a) [i..<length a] j2len (d, d, bs) = (d', d', bs')"
proof (induction "length a - i" arbitrary: i j2len d bs)
  case 0
  then show ?case by simp
next
  case (Suc m)
  let ?n = "length a"
  let ?js = "b2j (a ! i)"
  have lt: "i < ?n" using Suc.hyps(2) by simp
  obtain nj' best' where inner: "flm_inner i 0 ?n j2len ?js Map.empty (d, d, bs) = (nj', best')"
    by (cases "flm_inner i 0 ?n j2len ?js Map.empty (d, d, bs)") auto
  have mem: "c \<in> set ?js \<longleftrightarrow> cell a b2j i c" for c
    using b2j [of "a ! i"] lt by (auto simp: cell_def set_indices_of)
  have s1: "sorted_wrt (<) ?js"
    using b2j [of "a ! i"] indices_of_sorted [of a "a ! i"] by auto
  have s2: "\<forall>j \<in> set ?js. j < ?n \<and> j2len_get j2len j + 1 = match_len a b2j i j"
    using mem Suc.prems(2) j2len_get_row [of a b2j i] by (auto simp: cell_def)
  have s3: "\<forall>j \<in> set ?js. j \<noteq> i \<longrightarrow> match_len a b2j i j \<le> bs \<or> (i \<in> set ?js \<and> i < j)"
  proof (intro ballI impI)
    fix j assume j: "j \<in> set ?js" "j \<noteq> i"
    show "match_len a b2j i j \<le> bs \<or> (i \<in> set ?js \<and> i < j)"
    proof (cases "j < i")
      case True
      then have "match_len a b2j j i \<le> bs" using Suc.prems(3) by blast
      then show ?thesis by (simp add: match_len_sym [of a b2j i j])
    next
      case False
      then have "i < j" using j(2) by simp
      moreover have "i \<in> set ?js"
        using j(1) mem cell_diag [of a b2j i j] by blast
      ultimately show ?thesis by blast
    qed
  qed
  obtain d' bs' where r: "best' = (d', d', bs')" "bs \<le> bs'"
      "\<forall>j \<in> set ?js. match_len a b2j i j \<le> bs'"
      "nj' = (\<lambda>c. if c \<in> set ?js then Some (match_len a b2j i c) else Map.empty c)"
    using flm_inner_diag [OF s1 s2 s3 inner] by blast
  have row: "nj' = row_of a b2j (Suc i)"
  proof
    fix c
    show "nj' c = row_of a b2j (Suc i) c"
      using r(4) mem [of c] match_len_cell [of a b2j i c] by (simp add: row_of_def)
  qed
  have bound: "\<forall>r < Suc i. \<forall>c. match_len a b2j r c \<le> bs'"
  proof (intro allI impI)
    fix r c assume "r < Suc i"
    show "match_len a b2j r c \<le> bs'"
    proof (cases "r = i")
      case True
      show ?thesis
      proof (cases "cell a b2j i c")
        case True
        then show ?thesis using r(3) mem \<open>r = i\<close> by blast
      next
        case False
        then show ?thesis using match_len_cell [of a b2j i c] \<open>r = i\<close> by simp
      qed
    next
      case False
      then have "r < i" using \<open>r < Suc i\<close> by simp
      then show ?thesis using Suc.prems(3) r(2) le_trans by blast
    qed
  qed
  have "\<exists>d'' bs''. flm_rows a b2j 0 ?n [Suc i..<?n] nj' (d', d', bs') = (d'', d'', bs'')"
    by (rule Suc.hyps(1)) (use Suc.hyps(2) lt row bound in auto)
  then show ?case
    using lt inner r(1) by (simp add: upt_conv_Cons)
qed

lemma extend_left_diag: "extend_left a a 0 0 (d, d, s) = (0, 0, s + d)"
  by (induction d arbitrary: s) auto

lemma extend_right_diag:
  "s \<le> length a \<Longrightarrow> extend_right a a (length a) (length a) (0, 0, s) = (0, 0, length a)"
proof (induction "length a - s" arbitrary: s)
  case 0
  then show ?case by simp
next
  case (Suc m)
  then have "s < length a" by simp
  moreover have "extend_right a a (length a) (length a) (0, 0, Suc s) = (0, 0, length a)"
    by (rule Suc.hyps(1)) (use Suc.hyps(2) \<open>s < length a\<close> in auto)
  ultimately show ?case by simp
qed

lemma find_longest_match_same:
  "find_longest_match a a (chain_b a) 0 (length a) 0 (length a) = (0, 0, length a)"
proof -
  let ?n = "length a"
  let ?m = "flm_rows a (chain_b a) 0 ?n [0..<?n] Map.empty (0, 0, 0)"
  obtain d bs where m: "?m = (d, d, bs)"
    using flm_rows_diag [of "chain_b a" a 0 Map.empty 0 0, OF chain_b_cases]
    by (auto simp: row_of_def)
  have "best_ok 0 ?n ?m"
    by (rule flm_rows_bounds) (auto simp: row_ok_def best_ok_def)
  then have le: "d + bs \<le> ?n"
    using m by (simp add: best_ok_def)
  have "find_longest_match a a (chain_b a) 0 ?n 0 ?n
        = extend_right a a ?n ?n (extend_left a a 0 0 (d, d, bs))"
    using m by (simp add: find_longest_match_def)
  also have "\<dots> = extend_right a a ?n ?n (0, 0, bs + d)"
    by (simp only: extend_left_diag)
  also have "\<dots> = (0, 0, ?n)"
    by (rule extend_right_diag) (use le in simp)
  finally show ?thesis .
qed

lemma get_matching_blocks_same:
  "get_matching_blocks a a =
     (if a = [] then [(0, 0, 0)] else [(0, 0, length a), (length a, length a, 0)])"
  by (simp add: get_matching_blocks_def find_longest_match_same Let_def)

lemma ratio_same: "ratio a a = 1"
  by (simp add: ratio_def get_matching_blocks_same Let_def)

lemma get_opcodes_same:
  "get_opcodes a a = (if a = [] then [] else [(Equal, 0, length a, 0, length a)])"
  by (simp add: get_opcodes_def get_matching_blocks_same Let_def)

lemma get_grouped_opcodes_same: "get_grouped_opcodes a a 3 = []"
proof -
  have "\<not> 6 < length a - (length a - 3)"
    by arith
  then show ?thesis
    by (simp add: get_grouped_opcodes_def get_opcodes_same fix_first_def fix_last_def Let_def)
qed

lemma unified_diff_same: "unified_diff a a fromfile tofile = []"
  by (simp add: unified_diff_def get_grouped_opcodes_same)


section \<open>The text comparison\<close>

lemma diff_entries_same: "diff_entries pages pages fromfile tofile = []"
  by (simp add: diff_entries_def unified_diff_same extract_detailed_positions_def)

lemma compare_text_ok:
  assumes "text_comparison caps"
    and "extract_text_by_page be p1 = Inr pages1"
    and "extract_text_by_page be p2 = Inr pages2"
  shows "compare_text caps be p1 p2 detailed
         = text_result pages1 pages2 (basename p1) (basename p2) detailed"
  using assms by (simp add: compare_text_def)

text \<open>
  Claim C1.  Whenever the text comparison runs (the capability is present and both
  documents are extracted), it does not fail, and its \<open>identical\<close> flag is true if and
  only if the concatenated texts of the two documents are equal and the diff has no
  entries; in particular, when the two documents have the same page texts, the diff has
  no entries (the result carries no detailed differences and counts no change),
  \<open>identical\<close> is true and the similarity is exactly 1.  The similarity is the quotient
  \<open>2 * matches / length\<close> computed exactly; for equal texts the floating-point
  quotient of the source is exactly 1.0 as well, both operands being the same number.
\<close>

theorem text_identical_iff:
  assumes "text_comparison caps"
    and "extract_text_by_page be p1 = Inr pages1"
    and "extract_text_by_page be p2 = Inr pages2"
  shows "error (compare_text caps be p1 p2 detailed) = None
    \<and> (identical (compare_text caps be p1 p2 detailed) = Some True
        \<longleftrightarrow> join_lf pages1 = join_lf pages2
            \<and> diff_entries pages1 pages2 (basename p1) (basename p2) = [])
    \<and> (pages1 = pages2 \<longrightarrow>
          diff_entries pages1 pages2 (basename p1) (basename p2) = []
          \<and> detailed_differences (the_text (details (compare_text caps be p1 p2 detailed))) = None
          \<and> total_changes (statistics (the_text (details (compare_text caps be p1 p2 detailed)))) = 0
          \<and> identical (compare_text caps be p1 p2 detailed) = Some True
          \<and> similarity (the_text (details (compare_text caps be p1 p2 detailed))) = 1)"
proof -
  let ?r = "compare_text caps be p1 p2 detailed"
  have r: "?r = text_result pages1 pages2 (basename p1) (basename p2) detailed"
    by (rule compare_text_ok [OF assms])
  have e: "error ?r = None"
    by (simp add: r text_result_def Let_def)
  have i: "identical ?r = Some (join_lf pages1 = join_lf pages2)"
    by (simp add: r text_result_def Let_def)
  have z: "diff_entries pages1 pages2 (basename p1) (basename p2) = []"
    if "join_lf pages1 = join_lf pages2"
    using that by (simp add: diff_entries_def unified_diff_same extract_detailed_positions_def)
  have same: "detailed_differences (the_text (details ?r)) = None
      \<and> total_changes (statistics (the_text (details ?r))) = 0
      \<and> similarity (the_text (details ?r)) = 1" if "pages1 = pages2"
    using that by (simp add: r text_result_def Let_def unified_diff_same ratio_same)
  show ?thesis
    using e i z same by auto
qed

lemma sample_extract:
  "extract_text_by_page sample_backend ''a.pdf'' = Inr [''A\<newline>B\<newline>C'']"
  "extract_text_by_page sample_backend ''b.pdf'' = Inr [''A\<newline>X\<newline>C'']"
  by (simp_all add: extract_text_by_page_def sample_backend_def)

theorem text_identical_iff_witness:
  "text_comparison all_capabilities
   \<and> extract_text_by_page sample_backend ''a.pdf'' = Inr [''A\<newline>B\<newline>C'']
   \<and> identical (compare_text all_capabilities sample_backend ''a.pdf'' ''a.pdf'' True) = Some True
   \<and> similarity (the_text (details
        (compare_text all_capabilities sample_backend ''a.pdf'' ''a.pdf'' True))) = 1
   \<and> diff_entries [''A\<newline>B\<newline>C''] [''A\<newline>B\<newline>C''] (basename ''a.pdf'') (basename ''a.pdf'') = []"
proof -
  have c: "text_comparison all_capabilities"
    by (simp add: all_capabilities_def)
  show ?thesis
    using text_identical_iff [OF c sample_extract(1) sample_extract(1), of True] c sample_extract(1)
    by simp
qed

text \<open>
  Claim C2, evaluated on the code.  For document A with the single page \<open>A\nB\nC\<close> and
  document B with the single page \<open>A\nX\nC\<close>, the text comparison returns two entries,
  a removed \<open>B\<close> and an added \<open>X\<close>, both on page 1 with global line 2; the similarity
  is 4/5 and \<open>identical\<close> is false.  The in-page line number of both entries is 1, where
  the claim says 2: the resolution is called with the 0-based cursor
  \<open>current_line\<close>, not with the 1-based line number stored under \<open>line\<close>.
\<close>

theorem scenario_line_in_page:
  "compare_text all_capabilities sample_backend ''a.pdf'' ''b.pdf'' True
   = \<lparr>error = None, method_name = Some ''text_comparison'', identical = Some False,
      details = TextDetails
        \<lparr>similarity = 4 / 5,
          statistics = \<lparr>lines_added = 1, lines_removed = 1, total_changes = 2,
                         char_count1 = 5, char_count2 = 5, line_count1 = 3, line_count2 = 3\<rparr>,
          detailed_differences = Some
            [\<lparr>d_type = ''removed'', d_content = ''B'', d_page = 1, d_line = 2,
               d_line_in_page = 1, d_file = ''pdf1'',
               d_context = \<lparr>before = [''A''], after = [''C'']\<rparr>\<rparr>,
             \<lparr>d_type = ''added'', d_content = ''X'', d_page = 1, d_line = 2,
               d_line_in_page = 1, d_file = ''pdf2'',
               d_context = \<lparr>before = [''A''], after = [''C'']\<rparr>\<rparr>],
          diff_preview = None\<rparr>\<rparr>"
  by code_simp

text \<open>
  Claim C4, evaluated on the code.  For document A with the pages \<open>A\<close> and \<open>B\<close> and
  document B with the pages \<open>A\<close> and \<open>X\<close>, both entries have global line 2 and are
  resolved to page 1, whose cumulative span is 1: the span up to the resolved page is
  below the entry's global line number.
\<close>

theorem page_span_below_global_line:
  "map (\<lambda>d. (d_type d, d_content d, d_page d, d_line d, d_line_in_page d,
              cumulative_span (if d_file d = ''pdf1'' then [''A'', ''B''] else [''A'', ''X''])
                (d_page d)))
     (diff_entries [''A'', ''B''] [''A'', ''X''] ''a.pdf'' ''b.pdf'')
   = [(''removed'', ''B'', 1, 2, 1, 1), (''added'', ''X'', 1, 2, 1, 1)]"
  by code_simp

section \<open>The diff with the sides swapped\<close>

subsection \<open>The longest match is a match\<close>

lemma chain_b_sound: "b2j_sound b (chain_b b)"
  by (auto simp: b2j_sound_def chain_b_def indices_of_def Let_def split: if_splits)

lemma valid_row_step:
  assumes row: "valid_row a b alo blo i j2len"
    and "alo \<le> i" and "blo \<le> j" and ab: "a ! i = b ! j"
  shows "0 < j2len_get j2len j + 1 \<and> (j2len_get j2len j + 1) + alo \<le> i + 1
      \<and> (j2len_get j2len j + 1) + blo \<le> j + 1
      \<and> (\<forall>t < j2len_get j2len j + 1. a ! (i - t) = b ! (j - t))"
proof (cases "j = 0 \<or> j2len (j - 1) = None")
  case True
  then have "j2len_get j2len j = 0"
    by (auto simp: j2len_get_def)
  then show ?thesis using assms by simp
next
  case False
  then obtain v where v: "j2len (j - 1) = Some v" and j: "j \<noteq> 0"
    by auto
  have g: "j2len_get j2len j = v"
    using v j by (simp add: j2len_get_def)
  have r: "0 < v" "v + alo \<le> i" "v + blo \<le> j" "\<forall>t < v. a ! (i - 1 - t) = b ! (j - 1 - t)"
    using row v j unfolding valid_row_def by fastforce+
  have "a ! (i - t) = b ! (j - t)" if "t < v + 1" for t
  proof (cases t)
    case 0
    then show ?thesis using ab by simp
  next
    case (Suc t')
    then have "t' < v" using that by simp
    then have "a ! (i - 1 - t') = b ! (j - 1 - t')" using r(4) by blast
    then show ?thesis using Suc by simp
  qed
  then show ?thesis using g r by simp
qed

lemma valid_match_update:
  assumes "0 < k" and "k + alo \<le> i + 1" and "k + blo \<le> j + 1"
    and "\<forall>t < k. a ! (i - t) = b ! (j - t)" and "i < ahi" and "j < bhi"
  shows "valid_match a b alo ahi blo bhi (i + 1 - k, j + 1 - k, k)"
proof -
  have eq: "a ! (i + 1 - k + t) = b ! (j + 1 - k + t)" if "t < k" for t
  proof -
    have e1: "i + 1 - k + t = i - (k - 1 - t)" and e2: "j + 1 - k + t = j - (k - 1 - t)"
      using that assms(2,3) by arith+
    have "k - 1 - t < k" using that by arith
    then have "a ! (i - (k - 1 - t)) = b ! (j - (k - 1 - t))"
      using assms(4) by blast
    then show ?thesis
      unfolding e1 e2 .
  qed
  have b1: "alo \<le> i + 1 - k" "i + 1 - k + k \<le> ahi" "blo \<le> j + 1 - k" "j + 1 - k + k \<le> bhi"
    using assms(2,3,5,6) by arith+
  show ?thesis
    using b1 eq by (simp add: valid_match_def)
qed

lemma flm_inner_valid:
  "valid_row a b alo blo i j2len \<Longrightarrow> alo \<le> i \<Longrightarrow> i < ahi
   \<Longrightarrow> \<forall>j \<in> set js. a ! i = b ! j
   \<Longrightarrow> valid_row a b alo blo (Suc i) newj2len \<Longrightarrow> valid_match a b alo ahi blo bhi best
   \<Longrightarrow> flm_inner i blo bhi j2len js newj2len best = (nj, best')
   \<Longrightarrow> valid_row a b alo blo (Suc i) nj \<and> valid_match a b alo ahi blo bhi best'"
proof (induction i blo bhi j2len js newj2len best rule: flm_inner.induct)
  case (1 i blo bhi j2len newj2len best)
  then show ?case by simp
next
  case (2 i blo bhi j2len j js newj2len besti bestj bestsize)
  let ?k = "j2len_get j2len j + 1"
  have rest: "\<forall>j' \<in> set js. a ! i = b ! j'"
    using "2.prems"(4) by (meson list.set_intros(2))
  show ?case
  proof (cases "j < blo")
    case True
    then show ?thesis
      using "2.IH"(1) [OF True "2.prems"(1,2,3) rest "2.prems"(5,6)] "2.prems"(7) by simp
  next
    case nlo: False
    show ?thesis
    proof (cases "j \<ge> bhi")
      case True
      then show ?thesis using nlo "2.prems" by simp
    next
      case nhi: False
      have ab: "a ! i = b ! j" using "2.prems"(4) by simp
      have st: "0 < ?k \<and> ?k + alo \<le> i + 1 \<and> ?k + blo \<le> j + 1
          \<and> (\<forall>t < ?k. a ! (i - t) = b ! (j - t))"
        by (rule valid_row_step [OF "2.prems"(1,2) _ ab]) (use nlo in simp)
      have row': "valid_row a b alo blo (Suc i) (newj2len(j \<mapsto> ?k))"
        using "2.prems"(5) st unfolding valid_row_def by auto
      have best_new: "valid_match a b alo ahi blo bhi (i + 1 - ?k, j + 1 - ?k, ?k)"
        by (rule valid_match_update) (use st "2.prems"(3) nhi in auto)
      show ?thesis
      proof (cases "?k > bestsize")
        case True
        have "flm_inner i blo bhi j2len (j # js) newj2len (besti, bestj, bestsize)
              = flm_inner i blo bhi j2len js (newj2len(j \<mapsto> ?k)) (i + 1 - ?k, j + 1 - ?k, ?k)"
          using nlo nhi True by (simp add: Let_def del: fun_upd_apply)
        then have "flm_inner i blo bhi j2len js (newj2len(j \<mapsto> ?k)) (i + 1 - ?k, j + 1 - ?k, ?k)
              = (nj, best')"
          using "2.prems"(7) by simp
        then show ?thesis
          by (rule "2.IH"(2) [OF nlo nhi refl True "2.prems"(1,2,3) rest row' best_new])
      next
        case False
        have "flm_inner i blo bhi j2len (j # js) newj2len (besti, bestj, bestsize)
              = flm_inner i blo bhi j2len js (newj2len(j \<mapsto> ?k)) (besti, bestj, bestsize)"
          using nlo nhi False by (simp add: Let_def del: fun_upd_apply)
        then have "flm_inner i blo bhi j2len js (newj2len(j \<mapsto> ?k)) (besti, bestj, bestsize)
              = (nj, best')"
          using "2.prems"(7) by simp
        then show ?thesis
          by (rule "2.IH"(3) [OF nlo nhi refl False "2.prems"(1,2,3) rest row' "2.prems"(6)])
      qed
    qed
  qed
qed

lemma flm_rows_valid:
  assumes "b2j_sound b b2j"
  shows "valid_row a b alo blo i j2len \<Longrightarrow> alo \<le> i \<Longrightarrow> i \<le> ahi
   \<Longrightarrow> valid_match a b alo ahi blo bhi best
   \<Longrightarrow> valid_match a b alo ahi blo bhi (flm_rows a b2j blo bhi [i..<ahi] j2len best)"
proof (induction "ahi - i" arbitrary: i j2len best)
  case 0
  then show ?case by simp
next
  case (Suc d)
  then have lt: "i < ahi" by simp
  obtain nj best' where inner:
    "flm_inner i blo bhi j2len (b2j (a ! i)) Map.empty best = (nj, best')"
    by (cases "flm_inner i blo bhi j2len (b2j (a ! i)) Map.empty best") auto
  have js: "\<forall>j \<in> set (b2j (a ! i)). a ! i = b ! j"
    using assms by (auto simp: b2j_sound_def)
  have r0: "valid_row a b alo blo (Suc i) Map.empty"
    by (simp add: valid_row_def)
  have step: "valid_row a b alo blo (Suc i) nj \<and> valid_match a b alo ahi blo bhi best'"
    by (rule flm_inner_valid [OF Suc.prems(1,2) lt js r0 Suc.prems(4) inner])
  have "valid_match a b alo ahi blo bhi (flm_rows a b2j blo bhi [Suc i..<ahi] nj best')"
    by (rule Suc.hyps(1)) (use Suc.hyps(2) Suc.prems lt step in auto)
  then show ?case
    using lt inner by (simp add: upt_conv_Cons)
qed

lemma extend_left_valid:
  "valid_match a b alo ahi blo bhi m
   \<Longrightarrow> valid_match a b alo ahi blo bhi (extend_left a b alo blo m)"
proof (induction a b alo blo m rule: extend_left.induct)
  case (1 a b alo blo besti bestj bestsize)
  show ?case
  proof (cases "besti > alo \<and> bestj > blo \<and> a ! (besti - 1) = b ! (bestj - 1)")
    case True
    have old: "besti + bestsize \<le> ahi" "bestj + bestsize \<le> bhi"
        "\<forall>t < bestsize. a ! (besti + t) = b ! (bestj + t)"
      using "1.prems" by (simp_all add: valid_match_def)
    have eq: "a ! (besti - 1 + t) = b ! (bestj - 1 + t)" if "t < bestsize + 1" for t
    proof (cases t)
      case 0
      then show ?thesis using True by simp
    next
      case (Suc t')
      then have "a ! (besti + t') = b ! (bestj + t')"
        using that old(3) by simp
      moreover have "besti - 1 + t = besti + t'" "bestj - 1 + t = bestj + t'"
        using Suc True by arith+
      ultimately show ?thesis by simp
    qed
    have b1: "alo \<le> besti - 1" "besti - 1 + (bestsize + 1) \<le> ahi"
        "blo \<le> bestj - 1" "bestj - 1 + (bestsize + 1) \<le> bhi"
      using True old(1,2) by arith+
    have "valid_match a b alo ahi blo bhi (besti - 1, bestj - 1, bestsize + 1)"
      using b1 eq by (simp add: valid_match_def del: extend_left.simps)
    then have "valid_match a b alo ahi blo bhi
        (extend_left a b alo blo (besti - 1, bestj - 1, bestsize + 1))"
      by (rule "1.IH" [OF True])
    moreover have "extend_left a b alo blo (besti, bestj, bestsize)
        = extend_left a b alo blo (besti - 1, bestj - 1, bestsize + 1)"
      by (subst extend_left.simps) (simp only: True if_True simp_thms)
    ultimately show ?thesis
      by (simp only:)
  next
    case False
    then have "extend_left a b alo blo (besti, bestj, bestsize) = (besti, bestj, bestsize)"
      by (subst extend_left.simps) (simp only: if_False)
    then show ?thesis using "1.prems" by (simp only:)
  qed
qed

lemma extend_right_valid:
  "valid_match a b alo ahi blo bhi m
   \<Longrightarrow> valid_match a b alo ahi blo bhi (extend_right a b ahi bhi m)"
proof (induction a b ahi bhi m rule: extend_right.induct)
  case (1 a b ahi bhi besti bestj bestsize)
  show ?case
  proof (cases "besti + bestsize < ahi \<and> bestj + bestsize < bhi
         \<and> a ! (besti + bestsize) = b ! (bestj + bestsize)")
    case True
    have old: "alo \<le> besti" "blo \<le> bestj"
        "\<forall>t < bestsize. a ! (besti + t) = b ! (bestj + t)"
      using "1.prems" by (simp_all add: valid_match_def del: extend_right.simps)
    have eq: "a ! (besti + t) = b ! (bestj + t)" if "t < bestsize + 1" for t
    proof (cases "t = bestsize")
      case True
      then show ?thesis using \<open>besti + bestsize < ahi \<and> bestj + bestsize < bhi
         \<and> a ! (besti + bestsize) = b ! (bestj + bestsize)\<close> by blast
    next
      case False
      then have "t < bestsize" using that by arith
      then show ?thesis using old(3) by blast
    qed
    have b1: "besti + (bestsize + 1) \<le> ahi" "bestj + (bestsize + 1) \<le> bhi"
      using True by arith+
    have "valid_match a b alo ahi blo bhi (besti, bestj, bestsize + 1)"
      using b1 eq old(1,2) by (simp add: valid_match_def del: extend_right.simps)
    then have "valid_match a b alo ahi blo bhi
        (extend_right a b ahi bhi (besti, bestj, bestsize + 1))"
      by (rule "1.IH" [OF True])
    moreover have "extend_right a b ahi bhi (besti, bestj, bestsize)
        = extend_right a b ahi bhi (besti, bestj, bestsize + 1)"
      by (subst extend_right.simps) (simp only: True if_True simp_thms)
    ultimately show ?thesis
      by (simp only:)
  next
    case False
    then have "extend_right a b ahi bhi (besti, bestj, bestsize) = (besti, bestj, bestsize)"
      by (subst extend_right.simps) (simp only: if_False)
    then show ?thesis using "1.prems" by (simp only:)
  qed
qed

lemma find_longest_match_valid:
  assumes "b2j_sound b b2j" and "alo \<le> ahi" and "blo \<le> bhi"
  shows "valid_match a b alo ahi blo bhi (find_longest_match a b b2j alo ahi blo bhi)"
proof -
  have "valid_match a b alo ahi blo bhi (flm_rows a b2j blo bhi [alo..<ahi] Map.empty (alo, blo, 0))"
    by (rule flm_rows_valid [OF assms(1)])
      (use assms(2,3) in \<open>auto simp: valid_row_def valid_match_def\<close>)
  then show ?thesis
    unfolding find_longest_match_def by (intro extend_right_valid extend_left_valid)
qed


subsection \<open>The matching blocks are matches\<close>

lemma mb_loop_valid:
  assumes "b2j_sound b b2j"
  shows "\<forall>q \<in> set queue. range_ok a b q \<Longrightarrow> \<forall>m \<in> set acc. block_ok a b m
    \<Longrightarrow> \<forall>m \<in> set (mb_loop a b b2j queue acc). block_ok a b m"
proof (induction "sum_list (map (\<lambda>(alo, ahi, blo, bhi). 2 * (ahi - alo) + 1) queue)"
    arbitrary: queue acc rule: less_induct)
  case less
  show ?case
  proof (cases queue)
    case Nil
    then show ?thesis using less.prems(2) by simp
  next
    case (Cons q rest)
    obtain alo ahi blo bhi where q: "q = (alo, ahi, blo, bhi)"
      by (cases q) auto
    obtain i j k where f: "find_longest_match a b b2j alo ahi blo bhi = (i, j, k)"
      by (cases "find_longest_match a b b2j alo ahi blo bhi") auto
    have r: "alo \<le> ahi" "ahi \<le> length a" "blo \<le> bhi" "bhi \<le> length b"
      using less.prems(1) Cons q by (auto simp: range_ok_def)
    have vm: "valid_match a b alo ahi blo bhi (i, j, k)"
      using find_longest_match_valid [OF assms r(1) r(3), of a] f by simp
    then have v: "alo \<le> i" "i + k \<le> ahi" "blo \<le> j" "j + k \<le> bhi"
        "\<forall>t < k. a ! (i + t) = b ! (j + t)"
      by (simp_all add: valid_match_def)
    have rest_ok: "\<forall>q' \<in> set rest. range_ok a b q'"
      using less.prems(1) Cons by simp
    show ?thesis
    proof (cases "k = 0")
      case True
      have eq: "mb_loop a b b2j queue acc = mb_loop a b b2j rest acc"
        using Cons q f True by simp
      have "\<forall>m \<in> set (mb_loop a b b2j rest acc). block_ok a b m"
        by (rule less.hyps) (use Cons q rest_ok less.prems(2) in auto)
      then show ?thesis by (simp only: eq)
    next
      case False
      let ?new = "(if i + k < ahi \<and> j + k < bhi then [(i + k, ahi, j + k, bhi)] else [])
                 @ (if alo < i \<and> blo < j then [(alo, i, blo, j)] else []) @ rest"
      have eq: "mb_loop a b b2j queue acc = mb_loop a b b2j ?new (acc @ [(i, j, k)])"
        using Cons q f False by simp
      have new_ok: "\<forall>q' \<in> set ?new. range_ok a b q'"
        using rest_ok r v by (auto simp: range_ok_def)
      have blk: "block_ok a b (i, j, k)"
        using v r by (simp add: block_ok_def)
      have acc_ok: "\<forall>m \<in> set (acc @ [(i, j, k)]). block_ok a b m"
        using less.prems(2) blk by simp
      have dec: "sum_list (map (\<lambda>(alo, ahi, blo, bhi). 2 * (ahi - alo) + 1) ?new)
          < sum_list (map (\<lambda>(alo, ahi, blo, bhi). 2 * (ahi - alo) + 1) queue)"
        using Cons q v False by auto
      have "\<forall>m \<in> set (mb_loop a b b2j ?new (acc @ [(i, j, k)])). block_ok a b m"
        by (rule less.hyps [OF dec new_ok acc_ok])
      then show ?thesis by (simp only: eq)
    qed
  qed
qed

lemma collapse_loop_valid:
  "block_ok a b cur \<Longrightarrow> \<forall>m \<in> set blocks. block_ok a b m \<Longrightarrow> \<forall>m \<in> set acc. block_ok a b m
   \<Longrightarrow> collapse_loop blocks cur acc = (cur', acc')
   \<Longrightarrow> block_ok a b cur' \<and> (\<forall>m \<in> set acc'. block_ok a b m)"
proof (induction blocks cur acc rule: collapse_loop.induct)
  case (1 cur non_adjacent)
  then show ?case by simp
next
  case (2 i2 j2 k2 rest i1 j1 k1 non_adjacent)
  have b1: "i1 + k1 \<le> length a" "j1 + k1 \<le> length b" "\<forall>t < k1. a ! (i1 + t) = b ! (j1 + t)"
    using "2.prems"(1) by (simp_all add: block_ok_def)
  have b2: "i2 + k2 \<le> length a" "j2 + k2 \<le> length b" "\<forall>t < k2. a ! (i2 + t) = b ! (j2 + t)"
    using "2.prems"(2) by (simp_all add: block_ok_def)
  have rest_ok: "\<forall>m \<in> set rest. block_ok a b m"
    using "2.prems"(2) by simp
  show ?case
  proof (cases "i1 + k1 = i2 \<and> j1 + k1 = j2")
    case True
    have "a ! (i1 + t) = b ! (j1 + t)" if "t < k1 + k2" for t
    proof (cases "t < k1")
      case True
      then show ?thesis using b1(3) by blast
    next
      case False
      then have "t - k1 < k2" using that by arith
      then have "a ! (i2 + (t - k1)) = b ! (j2 + (t - k1))" using b2(3) by blast
      moreover have "i2 + (t - k1) = i1 + t" "j2 + (t - k1) = j1 + t"
        using False \<open>i1 + k1 = i2 \<and> j1 + k1 = j2\<close> by arith+
      ultimately show ?thesis by simp
    qed
    then have merged: "block_ok a b (i1, j1, k1 + k2)"
      using True b2(1,2) by (auto simp: block_ok_def)
    have "collapse_loop rest (i1, j1, k1 + k2) non_adjacent = (cur', acc')"
      using "2.prems"(4) True by simp
    then show ?thesis
      by (rule "2.IH"(1) [OF True merged rest_ok "2.prems"(3)])
  next
    case False
    let ?acc = "if k1 \<noteq> 0 then non_adjacent @ [(i1, j1, k1)] else non_adjacent"
    have nxt: "block_ok a b (i2, j2, k2)"
      using "2.prems"(2) by simp
    have acc_ok: "\<forall>m \<in> set ?acc. block_ok a b m"
      using "2.prems"(1,3) by simp
    have "collapse_loop rest (i2, j2, k2) ?acc = (cur', acc')"
      using "2.prems"(4) False by simp
    then show ?thesis
      by (rule "2.IH"(2) [OF False nxt rest_ok acc_ok])
  qed
qed

lemma get_matching_blocks_valid:
  "\<exists>bs. get_matching_blocks a b = bs @ [(length a, length b, 0)]
        \<and> (\<forall>m \<in> set bs. block_ok a b m)"
proof -
  let ?blocks = "sort (mb_loop a b (chain_b b) [(0, length a, 0, length b)] [])"
  have "\<forall>m \<in> set (mb_loop a b (chain_b b) [(0, length a, 0, length b)] []). block_ok a b m"
    by (rule mb_loop_valid [OF chain_b_sound]) (simp_all add: range_ok_def)
  then have sorted_ok: "\<forall>m \<in> set ?blocks. block_ok a b m"
    by simp
  obtain cur acc where c: "collapse_loop ?blocks (0, 0, 0) [] = (cur, acc)"
    by (cases "collapse_loop ?blocks (0, 0, 0) []") auto
  have "block_ok a b cur \<and> (\<forall>m \<in> set acc. block_ok a b m)"
    by (rule collapse_loop_valid [OF _ sorted_ok _ c]) (simp_all add: block_ok_def)
  moreover obtain i1 j1 k1 where cur: "cur = (i1, j1, k1)"
    by (cases cur) auto
  ultimately show ?thesis
    using c by (auto simp: get_matching_blocks_def Let_def)
qed

subsection \<open>The opcodes cover both sequences\<close>

lemma final_pos_snoc: "final_pos (bs @ [(ai, bj, sz)]) p = (ai + sz, bj + sz)"
  by (induction bs arbitrary: p) auto

lemma cov_a_append: "cov_a a b (xs @ ys) x \<longleftrightarrow> cov_a a b xs x \<or> cov_a a b ys x"
  by (simp add: cov_a_def bex_Un)

lemma cov_b_append: "cov_b a b (xs @ ys) y \<longleftrightarrow> cov_b a b xs y \<or> cov_b a b ys y"
  by (simp add: cov_b_def bex_Un)

lemma opcodes_loop_step:
  "opcodes_loop ((ai, bj, sz) # blocks) i j answer
   = opcodes_loop blocks (ai + sz) (bj + sz) (answer @ opcode_step i j (ai, bj, sz))"
  by (simp add: opcode_step_def Let_def)

lemma opcode_step_cov_a:
  assumes "block_ok a b (ai, bj, sz)" and "i \<le> x" and "x < ai + sz"
  shows "cov_a a b (opcode_step i j (ai, bj, sz)) x"
proof (cases "x < ai")
  case True
  then show ?thesis
    using assms(2) by (simp add: opcode_step_def cov_a_def)
next
  case False
  let ?t = "x - ai"
  have t: "?t < sz" "ai + ?t = x"
    using False assms(3) by arith+
  have "a ! (ai + ?t) = b ! (bj + ?t)" "bj + ?t < length b"
    using assms(1) t(1) by (auto simp: block_ok_def)
  then have "a ! x \<in> set b"
    using t(2) nth_mem [of "bj + ?t" b] by simp
  then show ?thesis
    using False assms(3) by (simp add: opcode_step_def cov_a_def)
qed

lemma opcode_step_cov_b:
  assumes "block_ok a b (ai, bj, sz)" and "j \<le> y" and "y < bj + sz"
  shows "cov_b a b (opcode_step i j (ai, bj, sz)) y"
proof (cases "y < bj")
  case True
  then show ?thesis
    using assms(2) by (simp add: opcode_step_def cov_b_def)
next
  case False
  let ?t = "y - bj"
  have t: "?t < sz" "bj + ?t = y"
    using False assms(3) by arith+
  have "a ! (ai + ?t) = b ! (bj + ?t)" "ai + ?t < length a"
    using assms(1) t(1) by (auto simp: block_ok_def)
  then have "b ! y \<in> set a"
    using t(2) nth_mem [of "ai + ?t" a] by simp
  then show ?thesis
    using False assms(3) by (simp add: opcode_step_def cov_b_def)
qed

lemma opcodes_loop_cov:
  "\<forall>m \<in> set blocks. block_ok a b m \<Longrightarrow> \<forall>x < i. cov_a a b answer x
   \<Longrightarrow> \<forall>y < j. cov_b a b answer y
   \<Longrightarrow> (\<forall>x < fst (final_pos blocks (i, j)). cov_a a b (opcodes_loop blocks i j answer) x)
     \<and> (\<forall>y < snd (final_pos blocks (i, j)). cov_b a b (opcodes_loop blocks i j answer) y)"
proof (induction blocks arbitrary: i j answer)
  case Nil
  then show ?case by simp
next
  case (Cons m blocks)
  obtain ai bj sz where m: "m = (ai, bj, sz)"
    by (cases m) auto
  let ?answer = "answer @ opcode_step i j (ai, bj, sz)"
  have ok: "block_ok a b (ai, bj, sz)"
    using Cons.prems(1) m by simp
  have rest: "\<forall>m \<in> set blocks. block_ok a b m"
    using Cons.prems(1) by simp
  have ca: "\<forall>x < ai + sz. cov_a a b ?answer x"
  proof (intro allI impI)
    fix x assume "x < ai + sz"
    then show "cov_a a b ?answer x"
      using Cons.prems(2) opcode_step_cov_a [OF ok, of i x j]
      by (cases "x < i") (auto simp: cov_a_append)
  qed
  have cb: "\<forall>y < bj + sz. cov_b a b ?answer y"
  proof (intro allI impI)
    fix y assume "y < bj + sz"
    then show "cov_b a b ?answer y"
      using Cons.prems(3) opcode_step_cov_b [OF ok, of j y i]
      by (cases "y < j") (auto simp: cov_b_append)
  qed
  show ?case
    using Cons.IH [OF rest ca cb] by (simp only: m opcodes_loop_step final_pos.simps)
qed

lemma get_opcodes_cov:
  "(\<forall>x < length a. cov_a a b (get_opcodes a b) x)
   \<and> (\<forall>y < length b. cov_b a b (get_opcodes a b) y)"
proof -
  obtain bs where bs: "get_matching_blocks a b = bs @ [(length a, length b, 0)]"
      "\<forall>m \<in> set bs. block_ok a b m"
    using get_matching_blocks_valid [of a b] by blast
  have ok: "\<forall>m \<in> set (get_matching_blocks a b). block_ok a b m"
    using bs by (auto simp: block_ok_def)
  have "final_pos (get_matching_blocks a b) (0, 0) = (length a, length b)"
    using final_pos_snoc [of bs "length a" "length b" 0 "(0, 0)"] bs(1) by simp
  then show ?thesis
    using opcodes_loop_cov [OF ok, of 0 "[]" 0] by (simp add: get_opcodes_def)
qed

lemma get_opcodes_removed:
  assumes "x < length a" and "a ! x \<notin> set b"
  shows "\<exists>tag i1 i2 j1 j2. (tag, i1, i2, j1, j2) \<in> set (get_opcodes a b)
           \<and> i1 \<le> x \<and> x < i2 \<and> (tag = Replace \<or> tag = Delete)"
proof -
  have "cov_a a b (get_opcodes a b) x"
    using get_opcodes_cov [of a b] assms(1) by blast
  then obtain tag i1 i2 j1 j2 where o: "(tag, i1, i2, j1, j2) \<in> set (get_opcodes a b)"
      "i1 \<le> x" "x < i2" "tag \<noteq> Insert" "tag = Equal \<longrightarrow> a ! x \<in> set b"
    unfolding cov_a_def by blast
  then have "tag = Replace \<or> tag = Delete"
    using assms(2) by (cases tag) auto
  then show ?thesis
    using o(1,2,3) by blast
qed

lemma get_opcodes_added:
  assumes "y < length b" and "b ! y \<notin> set a"
  shows "\<exists>tag i1 i2 j1 j2. (tag, i1, i2, j1, j2) \<in> set (get_opcodes a b)
           \<and> j1 \<le> y \<and> y < j2 \<and> (tag = Replace \<or> tag = Insert)"
proof -
  have "cov_b a b (get_opcodes a b) y"
    using get_opcodes_cov [of a b] assms(1) by blast
  then obtain tag i1 i2 j1 j2 where o: "(tag, i1, i2, j1, j2) \<in> set (get_opcodes a b)"
      "j1 \<le> y" "y < j2" "tag \<noteq> Delete" "tag = Equal \<longrightarrow> b ! y \<in> set a"
    unfolding cov_b_def by blast
  then have "tag = Replace \<or> tag = Insert"
    using assms(2) by (cases tag) auto
  then show ?thesis
    using o(1,2,3) by blast
qed

subsection \<open>The lines of the unified diff and the reported entries\<close>

lemma fix_first_keeps:
  "c \<in> set codes \<Longrightarrow> fst c \<noteq> Equal \<Longrightarrow> c \<in> set (fix_first n codes)"
  by (auto simp: fix_first_def split: list.splits tag.splits prod.splits)

lemma fix_last_keeps:
  assumes "c \<in> set codes" and "fst c \<noteq> Equal"
  shows "c \<in> set (fix_last n codes)"
proof -
  have "c \<in> set (rev codes)"
    using assms(1) by simp
  then show ?thesis
    using assms by (auto simp: fix_last_def split: list.splits tag.splits prod.splits)
qed

lemma group_loop_keeps:
  "fst c \<noteq> Equal \<Longrightarrow> c \<in> set codes \<or> c \<in> set grp \<or> (\<exists>g \<in> set groups. c \<in> set g)
   \<Longrightarrow> \<exists>g \<in> set (group_loop n codes grp groups). c \<in> set g"
proof (induction n codes grp groups rule: group_loop.induct)
  case (1 n grp groups)
  then show ?case
    by (cases grp) auto
next
  case (2 n tag i1 i2 j1 j2 codes grp groups)
  show ?case
  proof (cases "tag = Equal \<and> i2 - i1 > n + n")
    case True
    have "\<exists>g \<in> set (group_loop n codes [(tag, max i1 (i2 - n), i2, max j1 (j2 - n), j2)]
             (groups @ [grp @ [(tag, i1, min i2 (i1 + n), j1, min j2 (j1 + n))]])). c \<in> set g"
      by (rule "2.IH"(1) [OF True "2.prems"(1)]) (use True "2.prems" in auto)
    then show ?thesis
      using True by simp
  next
    case False
    have "\<exists>g \<in> set (group_loop n codes (grp @ [(tag, i1, i2, j1, j2)]) groups). c \<in> set g"
      by (rule "2.IH"(2) [OF False "2.prems"(1)]) (use "2.prems" in auto)
    then show ?thesis
      by (subst group_loop.simps) (simp only: False if_False)
  qed
qed

lemma get_grouped_opcodes_keeps:
  assumes "c \<in> set (get_opcodes a b)" and "fst c \<noteq> Equal"
  shows "\<exists>g \<in> set (get_grouped_opcodes a b n). c \<in> set g"
proof -
  have ne: "get_opcodes a b \<noteq> []"
    using assms(1) by auto
  have "c \<in> set (fix_last n (fix_first n (get_opcodes a b)))"
    by (intro fix_last_keeps fix_first_keeps assms)
  then have "\<exists>g \<in> set (group_loop n (fix_last n (fix_first n (get_opcodes a b))) [] []). c \<in> set g"
    using group_loop_keeps [OF assms(2)] by blast
  then show ?thesis
    using ne by (simp add: get_grouped_opcodes_def Let_def)
qed

lemma set_slice: "set (slice xs lo hi) \<subseteq> set xs"
  by (auto simp: slice_def dest: in_set_takeD in_set_dropD)

lemma nth_in_slice:
  assumes "lo \<le> x" and "x < hi" and "x < length xs"
  shows "xs ! x \<in> set (slice xs lo hi)"
proof -
  have "x - lo < length (slice xs lo hi)"
    using assms by (simp add: slice_def) arith
  moreover have "slice xs lo hi ! (x - lo) = xs ! x"
    using assms by (simp add: slice_def)
  ultimately show ?thesis
    using nth_mem by metis
qed

lemma dump_group_removed:
  "(tag, i1, i2, j1, j2) \<in> set grp \<Longrightarrow> tag = Replace \<or> tag = Delete
   \<Longrightarrow> x \<in> set (slice a i1 i2) \<Longrightarrow> CHR ''-'' # x \<in> set (dump_group a b grp)"
  by (induction grp) auto

lemma dump_group_added:
  "(tag, i1, i2, j1, j2) \<in> set grp \<Longrightarrow> tag = Replace \<or> tag = Insert
   \<Longrightarrow> y \<in> set (slice b j1 j2) \<Longrightarrow> CHR ''+'' # y \<in> set (dump_group a b grp)"
  by (induction grp) auto

lemma dump_group_lines:
  "l \<in> set (dump_group a b grp)
   \<Longrightarrow> (\<exists>x \<in> set a. l = CHR '' '' # x \<or> l = CHR ''-'' # x) \<or> (\<exists>y \<in> set b. l = CHR ''+'' # y)"
proof (induction grp)
  case Nil
  then show ?case by simp
next
  case (Cons c grp)
  obtain tag i1 i2 j1 j2 where c: "c = (tag, i1, i2, j1, j2)"
    by (cases c) auto
  show ?case
    using Cons set_slice [of a i1 i2] set_slice [of b j1 j2]
    by (auto simp: c split: if_splits)
qed

lemma dump_hunk_sub: "set (dump_group a b grp) \<subseteq> set (dump_hunk a b grp)"
proof -
  obtain tf i1f i2f j1f j2f where f: "hd grp = (tf, i1f, i2f, j1f, j2f)"
    by (cases "hd grp") auto
  obtain tg i1l i2l j1l j2l where l: "last grp = (tg, i1l, i2l, j1l, j2l)"
    by (cases "last grp") auto
  show ?thesis
    by (auto simp: dump_hunk_def f l)
qed

lemma dump_hunk_line:
  "l \<in> set (dump_hunk a b grp) \<Longrightarrow> startswith l ''@@'' \<or> l \<in> set (dump_group a b grp)"
  by (auto simp: dump_hunk_def startswith_def split: prod.splits)

lemma set_unified_diff:
  "set (unified_diff a b fromfile tofile) =
     (if get_grouped_opcodes a b 3 = [] then {}
      else {''--- '' @ fromfile, ''+++ '' @ tofile}
           \<union> (\<Union>g \<in> set (get_grouped_opcodes a b 3). set (dump_hunk a b g)))"
  by (cases "get_grouped_opcodes a b 3") (auto simp: unified_diff_def)

lemma startswith_Nil: "startswith l [] = True"
  by (simp add: startswith_def)

lemma startswith_Cons: "startswith l (c # p) \<longleftrightarrow> l \<noteq> [] \<and> hd l = c \<and> startswith (tl l) p"
  by (cases l) (auto simp: startswith_def)

lemma unified_diff_removed_line:
  assumes "l \<in> set (unified_diff a b fromfile tofile)"
    and "startswith l ''-''" and "\<not> startswith l ''---''"
  shows "drop 1 l \<in> set a"
proof -
  have ne: "get_grouped_opcodes a b 3 \<noteq> []"
    using assms(1) by (auto simp: set_unified_diff split: if_splits)
  have "l \<noteq> ''--- '' @ fromfile" "l \<noteq> ''+++ '' @ tofile"
    using assms(2,3) by (auto simp: startswith_Cons startswith_Nil)
  then obtain g where g: "l \<in> set (dump_hunk a b g)"
    using assms(1) ne by (auto simp: set_unified_diff)
  have "\<not> startswith l ''@@''"
    using assms(2) by (auto simp: startswith_Cons startswith_Nil)
  then have "l \<in> set (dump_group a b g)"
    using dump_hunk_line [OF g] by simp
  then show ?thesis
    using dump_group_lines [of l a b g] assms(2) by (auto simp: startswith_Cons startswith_Nil)
qed

lemma unified_diff_added_line:
  assumes "l \<in> set (unified_diff a b fromfile tofile)"
    and "startswith l ''+''" and "\<not> startswith l ''+++''"
  shows "drop 1 l \<in> set b"
proof -
  have ne: "get_grouped_opcodes a b 3 \<noteq> []"
    using assms(1) by (auto simp: set_unified_diff split: if_splits)
  have "l \<noteq> ''--- '' @ fromfile" "l \<noteq> ''+++ '' @ tofile"
    using assms(2,3) by (auto simp: startswith_Cons startswith_Nil)
  then obtain g where g: "l \<in> set (dump_hunk a b g)"
    using assms(1) ne by (auto simp: set_unified_diff)
  have "\<not> startswith l ''@@''"
    using assms(2) by (auto simp: startswith_Cons startswith_Nil)
  then have "l \<in> set (dump_group a b g)"
    using dump_hunk_line [OF g] by simp
  then show ?thesis
    using dump_group_lines [of l a b g] assms(2) by (auto simp: startswith_Cons startswith_Nil)
qed

lemma unified_diff_has_removed:
  assumes "c \<in> set a" and "c \<notin> set b"
  shows "CHR ''-'' # c \<in> set (unified_diff a b fromfile tofile)"
proof -
  obtain x where x: "x < length a" "a ! x = c"
    using assms(1) by (auto simp: in_set_conv_nth)
  obtain tag i1 i2 j1 j2 where o: "(tag, i1, i2, j1, j2) \<in> set (get_opcodes a b)"
      "i1 \<le> x" "x < i2" "tag = Replace \<or> tag = Delete"
    using get_opcodes_removed [of x a b] x assms(2) by blast
  have "fst (tag, i1, i2, j1, j2) \<noteq> Equal"
    using o(4) by auto
  then obtain g where g: "g \<in> set (get_grouped_opcodes a b 3)" "(tag, i1, i2, j1, j2) \<in> set g"
    using get_grouped_opcodes_keeps [OF o(1)] by blast
  have "c \<in> set (slice a i1 i2)"
    using nth_in_slice [OF o(2,3) x(1)] x(2) by simp
  then have "CHR ''-'' # c \<in> set (dump_group a b g)"
    by (rule dump_group_removed [OF g(2) o(4)])
  then have "CHR ''-'' # c \<in> set (dump_hunk a b g)"
    using dump_hunk_sub [of a b g] by auto
  then show ?thesis
    using g(1) by (auto simp: set_unified_diff)
qed

lemma unified_diff_has_added:
  assumes "c \<in> set b" and "c \<notin> set a"
  shows "CHR ''+'' # c \<in> set (unified_diff a b fromfile tofile)"
proof -
  obtain y where y: "y < length b" "b ! y = c"
    using assms(1) by (auto simp: in_set_conv_nth)
  obtain tag i1 i2 j1 j2 where o: "(tag, i1, i2, j1, j2) \<in> set (get_opcodes a b)"
      "j1 \<le> y" "y < j2" "tag = Replace \<or> tag = Insert"
    using get_opcodes_added [of y b a] y assms(2) by blast
  have "fst (tag, i1, i2, j1, j2) \<noteq> Equal"
    using o(4) by auto
  then obtain g where g: "g \<in> set (get_grouped_opcodes a b 3)" "(tag, i1, i2, j1, j2) \<in> set g"
    using get_grouped_opcodes_keeps [OF o(1)] by blast
  have "c \<in> set (slice b j1 j2)"
    using nth_in_slice [OF o(2,3) y(1)] y(2) by simp
  then have "CHR ''+'' # c \<in> set (dump_group a b g)"
    by (rule dump_group_added [OF g(2) o(4)])
  then have "CHR ''+'' # c \<in> set (dump_hunk a b g)"
    using dump_hunk_sub [of a b g] by auto
  then show ?thesis
    using g(1) by (auto simp: set_unified_diff)
qed

lemma reported_Nil: "reported [] = {}"
  by (simp add: reported_def)

lemma reported_Cons:
  "reported (l # diff) =
     (if startswith l ''-'' \<and> \<not> startswith l ''---'' then {(''removed'', drop 1 l)} else {})
     \<union> (if startswith l ''+'' \<and> \<not> startswith l ''+++'' then {(''added'', drop 1 l)} else {})
     \<union> reported diff"
  by (auto simp: reported_def)

lemma entry_kinds_Nil: "entry_kinds [] = {}"
  by (simp add: entry_kinds_def)

lemma entry_kinds_snoc:
  "entry_kinds (ds @ [d]) = insert (d_type d, d_content d) (entry_kinds ds)"
  by (simp add: entry_kinds_def)

lemma extract_loop_kinds:
  "entry_kinds (extract_loop diff lines1 lines2 pages1 pages2 c1 c2 acc)
   = entry_kinds acc \<union> reported diff"
proof (induction diff arbitrary: c1 c2 acc)
  case Nil
  then show ?case by (simp add: reported_Nil)
next
  case (Cons l diff)
  have at: "\<not> startswith l ''-''" "\<not> startswith l ''+''" if "startswith l ''@@''"
    using that by (auto simp: startswith_Cons startswith_Nil)
  have pm: "\<not> startswith l ''+''" if "startswith l ''-''"
    using that by (auto simp: startswith_Cons startswith_Nil)
  have d3: "startswith l ''-''" if "startswith l ''---''"
    using that by (auto simp: startswith_Cons startswith_Nil)
  have p3: "startswith l ''+''" if "startswith l ''+++''"
    using that by (auto simp: startswith_Cons startswith_Nil)
  show ?case
    using at pm d3 p3
    by (auto simp: Cons.IH reported_Cons entry_kinds_snoc split: option.split prod.split)
qed

lemma entry_kinds_diff_entries:
  "entry_kinds (diff_entries pages1 pages2 fromfile tofile)
   = reported (unified_diff (splitlines (join_lf pages1)) (splitlines (join_lf pages2))
        fromfile tofile)"
  by (simp add: diff_entries_def extract_detailed_positions_def Let_def extract_loop_kinds
      entry_kinds_Nil)

text \<open>
  Claim C5, as amended: for every pair of texts, every entry of the diff is a removed entry whose
  content is a line of the first text or an added entry whose content is a line of the second
  text; and a line that occurs in the first text only and starts neither with \<open>--\<close> nor
  with \<open>++\<close> is reported as removed, and as added with the same content when the sides are
  swapped. (Lines that occur in both texts may be aligned differently in the two directions.)
\<close>

theorem exclusive_lines_exchanged:
  "entry_kinds (diff_entries pages1 pages2 fromfile tofile)
     \<subseteq> {''removed''} \<times> set (splitlines (join_lf pages1))
       \<union> {''added''} \<times> set (splitlines (join_lf pages2))
   \<and> (\<forall>c. c \<in> set (splitlines (join_lf pages1)) \<and> c \<notin> set (splitlines (join_lf pages2))
          \<and> \<not> startswith c ''--'' \<and> \<not> startswith c ''++''
        \<longrightarrow> (''removed'', c) \<in> entry_kinds (diff_entries pages1 pages2 fromfile tofile)
          \<and> (''added'', c) \<in> entry_kinds (diff_entries pages2 pages1 tofile fromfile))"
proof -
  let ?a = "splitlines (join_lf pages1)"
  let ?b = "splitlines (join_lf pages2)"
  have pool: "reported (unified_diff ?a ?b fromfile tofile)
      \<subseteq> {''removed''} \<times> set ?a \<union> {''added''} \<times> set ?b"
    using unified_diff_removed_line [of _ ?a ?b fromfile tofile]
      unified_diff_added_line [of _ ?a ?b fromfile tofile]
    by (auto simp: reported_def)
  have rem: "(''removed'', c) \<in> reported (unified_diff ?a ?b fromfile tofile)"
    if "c \<in> set ?a" "c \<notin> set ?b" "\<not> startswith c ''--''" for c
  proof -
    let ?l = "CHR ''-'' # c"
    have "?l \<in> set (unified_diff ?a ?b fromfile tofile)"
      by (rule unified_diff_has_removed [OF that(1,2)])
    moreover have "startswith ?l ''-''" "\<not> startswith ?l ''---''"
      using that(3) by (simp_all add: startswith_Cons startswith_Nil)
    ultimately have "(''removed'', drop 1 ?l) \<in> reported (unified_diff ?a ?b fromfile tofile)"
      unfolding reported_def by blast
    then show ?thesis by simp
  qed
  have add: "(''added'', c) \<in> reported (unified_diff ?b ?a tofile fromfile)"
    if "c \<in> set ?a" "c \<notin> set ?b" "\<not> startswith c ''++''" for c
  proof -
    let ?l = "CHR ''+'' # c"
    have "?l \<in> set (unified_diff ?b ?a tofile fromfile)"
      by (rule unified_diff_has_added [OF that(1,2)])
    moreover have "startswith ?l ''+''" "\<not> startswith ?l ''+++''"
      using that(3) by (simp_all add: startswith_Cons startswith_Nil)
    ultimately have "(''added'', drop 1 ?l) \<in> reported (unified_diff ?b ?a tofile fromfile)"
      unfolding reported_def by blast
    then show ?thesis by simp
  qed
  show ?thesis
    using pool rem add by (simp add: entry_kinds_diff_entries)
qed

theorem exclusive_lines_exchanged_witness:
  "''B'' \<in> set (splitlines (join_lf [''A\<newline>B\<newline>C'']))
   \<and> ''B'' \<notin> set (splitlines (join_lf [''A\<newline>X\<newline>C'']))
   \<and> (''removed'', ''B'')
        \<in> entry_kinds (diff_entries [''A\<newline>B\<newline>C''] [''A\<newline>X\<newline>C''] ''a.pdf'' ''b.pdf'')
   \<and> (''added'', ''B'')
        \<in> entry_kinds (diff_entries [''A\<newline>X\<newline>C''] [''A\<newline>B\<newline>C''] ''b.pdf'' ''a.pdf'')"
proof -
  have lines: "''B'' \<in> set (splitlines (join_lf [''A\<newline>B\<newline>C'']))
      \<and> ''B'' \<notin> set (splitlines (join_lf [''A\<newline>X\<newline>C'']))
      \<and> \<not> startswith ''B'' ''--'' \<and> \<not> startswith ''B'' ''++''"
    by code_simp
  show ?thesis
    using exclusive_lines_exchanged
      [of "[''A\<newline>B\<newline>C'']" "[''A\<newline>X\<newline>C'']" "''a.pdf''" "''b.pdf''"] lines
    by blast
qed

text \<open>
  Claim C5: for every pair of texts, running the diff with the two sides swapped produces the
  same set of entries with the added and removed kinds exchanged and each content preserved.
  It fails for the two-line texts with the lines \<open>x\<close>, \<open>y\<close> and \<open>y\<close>, \<open>x\<close>: the matcher keeps \<open>x\<close> in one direction and
  reports \<open>y\<close> as added and removed, and keeps \<open>y\<close> in the other direction and reports \<open>x\<close>.
\<close>

theorem swapped_sides_counterexample:
  "swap_type ` entry_kinds (diff_entries [''x\<newline>y''] [''y\<newline>x''] ''a.pdf'' ''b.pdf'')
   \<noteq> entry_kinds (diff_entries [''y\<newline>x''] [''x\<newline>y''] ''b.pdf'' ''a.pdf'')"
  by code_simp

end
